theory Spec2Isabelle
  imports Main
begin

section \<open>Lexical path operations (package path/filepath, Unix separator)\<close>

text \<open>
  The program calls \<^verbatim>\<open>filepath.Split\<close>, \<^verbatim>\<open>filepath.Join\<close> and, through it,
  \<^verbatim>\<open>filepath.Clean\<close>. They belong to the Go standard library, so they are written
  here from their documented behaviour on a Unix host (separator \<open>/\<close>, no volume
  names). Strings are byte lists, as Go strings are.
\<close>

definition sep :: string where
  "sep = ''/''"

text \<open>\<^verbatim>\<open>filepath.Split\<close>: cut right after the last separator; either part may be empty.\<close>

definition Split :: "string \<Rightarrow> string \<times> string" where
  "Split path =
     (rev (dropWhile (\<lambda>c. c \<noteq> CHR ''/'') (rev path)),
      rev (takeWhile (\<lambda>c. c \<noteq> CHR ''/'') (rev path)))"

text \<open>The elements of a path: the pieces between separators, empty ones included.\<close>

fun elements :: "string \<Rightarrow> string list" where
  "elements [] = [[]]"
| "elements (c # cs) =
     (if c = CHR ''/'' then [] # elements cs
      else (c # hd (elements cs)) # tl (elements cs))"

text \<open>
  One step of \<^verbatim>\<open>Clean\<close>'s scan. The stack holds the elements kept so far, last one
  first. Empty and \<open>.\<close> elements are dropped; \<open>..\<close> removes the element before it,
  is dropped at the root, and is kept at the front of a relative path.
\<close>

fun clean_step :: "bool \<Rightarrow> string list \<Rightarrow> string \<Rightarrow> string list" where
  "clean_step rooted st e =
     (if e = [] \<or> e = ''.'' then st
      else if e = ''..'' then
        (case st of
           [] \<Rightarrow> if rooted then [] else [''..'']
         | t # ts \<Rightarrow> if t = ''..'' then e # st else ts)
      else e # st)"

fun join_elems :: "string list \<Rightarrow> string" where
  "join_elems [] = []"
| "join_elems [e] = e"
| "join_elems (e # es) = e @ ''/'' @ join_elems es"

definition rooted :: "string \<Rightarrow> bool" where
  "rooted path = (case path of [] \<Rightarrow> False | c # cs \<Rightarrow> c = CHR ''/'')"

definition kept :: "string \<Rightarrow> string list" where
  "kept path = rev (foldl (clean_step (rooted path)) [] (elements path))"

text \<open>\<^verbatim>\<open>filepath.Clean\<close>: the shortest equivalent path; the empty result is \<open>.\<close>.\<close>

definition Clean :: "string \<Rightarrow> string" where
  "Clean path =
     (if rooted path then CHR ''/'' # join_elems (kept path)
      else if kept path = [] then ''.''
      else join_elems (kept path))"

text \<open>
  \<^verbatim>\<open>filepath.Join\<close> with two arguments: leading empty arguments are skipped, the rest
  is joined with the separator and cleaned; all arguments empty gives the empty string.
\<close>

definition Join :: "string \<Rightarrow> string \<Rightarrow> string" where
  "Join a b =
     (if a \<noteq> [] then Clean (a @ ''/'' @ b)
      else if b \<noteq> [] then Clean b
      else [])"

section \<open>The program's environment and variables\<close>

datatype form = NFC | NFD | NFKC | NFKD

datatype error =
    InvalidNormalizationForm
  | PathError string string
  | LinkError string string
  | ErrBadPattern

text \<open>
  What the program calls outside its own source: the filesystem (\<^verbatim>\<open>os.Stat\<close> reports
  whether the entry is a directory, \<^verbatim>\<open>os.Rename\<close> returns the changed filesystem,
  \<^verbatim>\<open>os.ReadDir\<close> the entry names), \<^verbatim>\<open>filepath.Glob\<close>, the normaliser
  \<^verbatim>\<open>norm.Form.String\<close> and the Unicode branch of \<^verbatim>\<open>strings.ToUpper\<close>. The type
  \<open>'w\<close> is the filesystem's state.
\<close>

record 'w sys =
  os_Stat :: "'w \<Rightarrow> string \<Rightarrow> error + bool"
  os_Rename :: "'w \<Rightarrow> string \<Rightarrow> string \<Rightarrow> error + 'w"
  os_ReadDir :: "'w \<Rightarrow> string \<Rightarrow> error + string list"
  filepath_Glob :: "'w \<Rightarrow> string \<Rightarrow> error + string list"
  norm_String :: "form \<Rightarrow> string \<Rightarrow> string"
  unicode_ToUpper :: "string \<Rightarrow> string"

text \<open>The command line switches (\<^verbatim>\<open>formName\<close> is with the variables: \<^verbatim>\<open>run\<close> assigns it).\<close>

record config =
  recurse :: bool
  quiet :: bool
  dryrun :: bool
  printBoth :: bool

text \<open>
  The global variables, the filesystem, and the two effects a run leaves behind: the
  strings written by \<^verbatim>\<open>fmt.Printf\<close> (one per call) and the calls made to
  \<^verbatim>\<open>os.Rename\<close> (old and new path), both in order. \<^verbatim>\<open>fileCount\<close> is a Go \<^verbatim>\<open>int\<close>;
  it counts renamed entries and cannot reach \<open>2^63\<close>, so it is a natural number here.
  \<^verbatim>\<open>dirFixed\<close> is a Go map: a missing key reads as the empty string.
\<close>

record 'w state =
  fs :: 'w
  formName :: string
  formCode :: form
  fileCount :: nat
  dirFixed :: "string \<rightharpoonup> string"
  out :: "string list"
  renameCalls :: "(string \<times> string) list"

definition normalize :: "'w sys \<Rightarrow> 'w state \<Rightarrow> string \<Rightarrow> string" where
  "normalize S \<sigma> s = norm_String S (formCode \<sigma>) s"

definition newline :: string where
  "newline = [CHR 0x0A]"

text \<open>The two \<^verbatim>\<open>Printf\<close> formats of lines 81 to 85.\<close>

definition printed :: "config \<Rightarrow> string \<Rightarrow> string \<Rightarrow> string" where
  "printed C originalName newName =
     (if printBoth C then originalName @ newline @ ''  -> '' @ newName @ newline
      else newName @ newline)"

section \<open>process\<close>

text \<open>
  Lines 63 to 96 of \<^verbatim>\<open>process\<close>: what is done to the entry itself. The result is the
  error of \<^verbatim>\<open>os.Rename\<close>, or \<^verbatim>\<open>newName\<close> and \<^verbatim>\<open>actualName\<close> as they stand at line 97.
\<close>

definition rename_entry ::
  "'w sys \<Rightarrow> config \<Rightarrow> 'w state \<Rightarrow> string \<Rightarrow> (error + string \<times> string) \<times> 'w state" where
  "rename_entry S C \<sigma> originalName =
     (let (dir, fname) = Split originalName;
          newf = normalize S \<sigma> fname;
          newName = Join dir newf
      in if newf \<noteq> fname then
           (let \<sigma>1 = \<sigma>\<lparr>fileCount := fileCount \<sigma> + 1\<rparr>;
                fixedDir = (case dirFixed \<sigma>1 dir of None \<Rightarrow> [] | Some v \<Rightarrow> v);
                fixedDir' = (if fixedDir = [] then dir else fixedDir);
                newName' = Join fixedDir' newf;
                \<sigma>2 = (if \<not> quiet C
                      then \<sigma>1\<lparr>out := out \<sigma>1 @ [printed C originalName newName']\<rparr>
                      else \<sigma>1)
            in if \<not> dryrun C then
                 (let \<sigma>3 = \<sigma>2\<lparr>renameCalls := renameCalls \<sigma>2 @ [(originalName, newName')]\<rparr>
                  in case os_Rename S (fs \<sigma>3) originalName newName' of
                       Inl err \<Rightarrow> (Inl err, \<sigma>3)
                     | Inr w \<Rightarrow> (Inr (newName', newName'), \<sigma>3\<lparr>fs := w\<rparr>))
               else (Inr (newName', originalName), \<sigma>2))
         else (Inr (newName, originalName), \<sigma>))"

text \<open>
  \<^verbatim>\<open>process\<close> and its loop over the directory's entries (lines 107 to 113). The
  recursion follows the directory tree, which the filesystem decides, so the functions
  take the depth they may descend to: \<open>None\<close> means the depth was not enough.
\<close>

fun process ::
    "'w sys \<Rightarrow> config \<Rightarrow> nat \<Rightarrow> 'w state \<Rightarrow> string \<Rightarrow> ((error + unit) \<times> 'w state) option"
  and process_entries ::
    "'w sys \<Rightarrow> config \<Rightarrow> nat \<Rightarrow> 'w state \<Rightarrow> string \<Rightarrow> string list
       \<Rightarrow> ((error + unit) \<times> 'w state) option"
where
  "process S C 0 \<sigma> originalName = None"
| "process S C (Suc n) \<sigma> originalName =
     (case os_Stat S (fs \<sigma>) originalName of
        Inl err \<Rightarrow> Some (Inl err, \<sigma>)
      | Inr isDir \<Rightarrow>
         (case rename_entry S C \<sigma> originalName of
            (Inl err, \<sigma>') \<Rightarrow> Some (Inl err, \<sigma>')
          | (Inr (newName, actualName), \<sigma>') \<Rightarrow>
             if isDir then
               (let originalName' = Join originalName [] @ sep;
                    newName' = Join newName [] @ sep;
                    \<sigma>'' = \<sigma>'\<lparr>dirFixed := (dirFixed \<sigma>')(originalName' \<mapsto> newName')\<rparr>
                in if recurse C then
                     (case os_ReadDir S (fs \<sigma>'') actualName of
                        Inl e \<Rightarrow> Some (Inl e, \<sigma>'')
                      | Inr d \<Rightarrow> process_entries S C n \<sigma>'' actualName d)
                   else Some (Inr (), \<sigma>''))
             else Some (Inr (), \<sigma>')))"
| "process_entries S C n \<sigma> actualName [] = Some (Inr (), \<sigma>)"
| "process_entries S C n \<sigma> actualName (f # d) =
     (case process S C n \<sigma> (Join actualName f) of
        None \<Rightarrow> None
      | Some (Inl err, \<sigma>') \<Rightarrow> Some (Inl err, \<sigma>')
      | Some (Inr u, \<sigma>') \<Rightarrow> process_entries S C n \<sigma>' actualName d)"

section \<open>run\<close>

text \<open>
  \<^verbatim>\<open>strings.ToUpper\<close>: a string of ASCII bytes is mapped byte by byte, lower case
  letters moving to upper case; any other string goes through the Unicode tables, which
  the environment supplies.
\<close>

definition upper_byte :: "char \<Rightarrow> char" where
  "upper_byte c =
     (if 97 \<le> (of_char c :: nat) \<and> (of_char c :: nat) \<le> 122
      then char_of ((of_char c :: nat) - 32) else c)"

definition strings_ToUpper :: "'w sys \<Rightarrow> string \<Rightarrow> string" where
  "strings_ToUpper S s =
     (if list_all (\<lambda>c. (of_char c :: nat) < 128) s then map upper_byte s
      else unicode_ToUpper S s)"

text \<open>The loop of lines 149 to 155 over the paths one pattern expands to.\<close>

fun process_names ::
  "'w sys \<Rightarrow> config \<Rightarrow> nat \<Rightarrow> 'w state \<Rightarrow> string list \<Rightarrow> ((error + unit) \<times> 'w state) option"
where
  "process_names S C n \<sigma> [] = Some (Inr (), \<sigma>)"
| "process_names S C n \<sigma> (name # l) =
     (case process S C n \<sigma> name of
        None \<Rightarrow> None
      | Some (Inl err, \<sigma>') \<Rightarrow> Some (Inl err, \<sigma>')
      | Some (Inr u, \<sigma>') \<Rightarrow> process_names S C n \<sigma>' l)"

text \<open>
  The loop of lines 139 to 156 over the command line's patterns. \<^verbatim>\<open>Glob\<close> returns
  \<^verbatim>\<open>nil\<close> when nothing matches; the \<^verbatim>\<open>continue\<close> of line 146 then does what the
  loop over an empty list does.
\<close>

fun run_patterns ::
  "'w sys \<Rightarrow> config \<Rightarrow> nat \<Rightarrow> 'w state \<Rightarrow> string list \<Rightarrow> ((error + unit) \<times> 'w state) option"
where
  "run_patterns S C n \<sigma> [] = Some (Inr (), \<sigma>)"
| "run_patterns S C n \<sigma> (pattern # args) =
     (case filepath_Glob S (fs \<sigma>) pattern of
        Inl err \<Rightarrow> Some (Inl err, \<sigma>)
      | Inr l \<Rightarrow>
         (case process_names S C n \<sigma> l of
            None \<Rightarrow> None
          | Some (Inl err, \<sigma>') \<Rightarrow> Some (Inl err, \<sigma>')
          | Some (Inr u, \<sigma>') \<Rightarrow> run_patterns S C n \<sigma>' args))"

text \<open>\<^verbatim>\<open>run\<close>; \<open>args\<close> is \<^verbatim>\<open>flag.Args()\<close>.\<close>

definition run ::
  "'w sys \<Rightarrow> config \<Rightarrow> nat \<Rightarrow> 'w state \<Rightarrow> string list \<Rightarrow> ((error + unit) \<times> 'w state) option"
where
  "run S C n \<sigma> args =
     (let \<sigma>0 = \<sigma>\<lparr>formName := strings_ToUpper S (formName \<sigma>)\<rparr>
      in if formName \<sigma>0 = ''NFC'' \<or> formName \<sigma>0 = ''WIN'' then
           run_patterns S C n (\<sigma>0\<lparr>formCode := NFC\<rparr>) args
         else if formName \<sigma>0 = ''NFD'' \<or> formName \<sigma>0 = ''MAC'' then
           run_patterns S C n (\<sigma>0\<lparr>formCode := NFD\<rparr>) args
         else if formName \<sigma>0 = ''NFKC'' then
           run_patterns S C n (\<sigma>0\<lparr>formCode := NFKC\<rparr>) args
         else if formName \<sigma>0 = ''NFKD'' then
           run_patterns S C n (\<sigma>0\<lparr>formCode := NFKD\<rparr>) args
         else Some (Inl InvalidNormalizationForm, \<sigma>0))"

text \<open>A name a directory entry can have: not empty, not \<open>.\<close> or \<open>..\<close>, no separator.\<close>

definition entry_name :: "string \<Rightarrow> bool" where
  "entry_name f = (f \<noteq> [] \<and> f \<noteq> ''.'' \<and> f \<noteq> ''..'' \<and> CHR ''/'' \<notin> set f)"

section \<open>A sample environment\<close>

text \<open>
  A small filesystem for the worked examples: the entries below the working directory,
  each a cleaned relative path with its is-directory flag, parents before children and
  siblings in name order (the order \<^verbatim>\<open>os.ReadDir\<close> lists them in).
\<close>

type_synonym sample_fs = "(string \<times> bool) list"

definition sample_Stat :: "sample_fs \<Rightarrow> string \<Rightarrow> error + bool" where
  "sample_Stat w name =
     (if name = [] then Inl (PathError ''stat'' name)
      else if Clean name = ''.'' then Inr True
      else (case map_of w (Clean name) of
              None \<Rightarrow> Inl (PathError ''stat'' name)
            | Some d \<Rightarrow> Inr d))"

definition below :: "string \<Rightarrow> string \<Rightarrow> bool" where
  "below d p = (d = ''.'' \<or> take (length d + 1) p = d @ ''/'')"

definition leaf_below :: "string \<Rightarrow> string \<Rightarrow> string" where
  "leaf_below d p = (if d = ''.'' then p else drop (length d + 1) p)"

definition sample_ReadDir :: "sample_fs \<Rightarrow> string \<Rightarrow> error + string list" where
  "sample_ReadDir w name =
     (if sample_Stat w name = Inr True then
        Inr (filter entry_name
               (map (leaf_below (Clean name)) (filter (below (Clean name)) (map fst w))))
      else Inl (PathError ''open'' name))"

text \<open>
  Renaming moves the entry and everything below it. The source must exist; a target
  that exists already is refused (Linux replaces a file or an empty directory, which no
  example here relies on).
\<close>

definition moved :: "string \<Rightarrow> string \<Rightarrow> string \<Rightarrow> string" where
  "moved old new p =
     (if p = old then new
      else if take (length old + 1) p = old @ ''/'' then new @ drop (length old) p
      else p)"

definition sample_Rename :: "sample_fs \<Rightarrow> string \<Rightarrow> string \<Rightarrow> error + sample_fs" where
  "sample_Rename w oldpath newpath =
     (if oldpath = [] \<or> newpath = [] \<or> map_of w (Clean oldpath) = None
         \<or> map_of w (Clean newpath) \<noteq> None
      then Inl (LinkError oldpath newpath)
      else Inr (map (\<lambda>(p, d). (moved (Clean oldpath) (Clean newpath) p, d)) w))"

text \<open>A pattern without metacharacters matches the path it spells, if that exists.\<close>

definition sample_Glob :: "sample_fs \<Rightarrow> string \<Rightarrow> error + string list" where
  "sample_Glob w pattern =
     (case sample_Stat w pattern of Inl err \<Rightarrow> Inr [] | Inr d \<Rightarrow> Inr [pattern])"

text \<open>
  The letter e with an acute accent, in UTF-8: decomposed (\<open>e\<close>, then U+0301) and
  composed (U+00E9).
\<close>

definition e_acute_d :: string where
  "e_acute_d = [CHR ''e'', CHR 0xCC, CHR 0x81]"

definition e_acute_c :: string where
  "e_acute_c = [CHR 0xC3, CHR 0xA9]"

text \<open>
  A normaliser for the examples. On strings made of ASCII bytes and these two
  spellings it does what the Unicode forms do: the composing forms replace the
  decomposed spelling by the composed one, the decomposing forms the other way round.
\<close>

fun compose :: "string \<Rightarrow> string" where
  "compose (a # b # c # s) =
     (if [a, b, c] = [CHR ''e'', CHR 0xCC, CHR 0x81]
      then CHR 0xC3 # CHR 0xA9 # compose s
      else a # compose (b # c # s))"
| "compose s = s"

fun decompose :: "string \<Rightarrow> string" where
  "decompose (a # b # s) =
     (if [a, b] = [CHR 0xC3, CHR 0xA9]
      then CHR ''e'' # CHR 0xCC # CHR 0x81 # decompose s
      else a # decompose (b # s))"
| "decompose s = s"

definition sample_String :: "form \<Rightarrow> string \<Rightarrow> string" where
  "sample_String f s = (case f of NFC \<Rightarrow> compose s | NFKC \<Rightarrow> compose s
                         | NFD \<Rightarrow> decompose s | NFKD \<Rightarrow> decompose s)"

definition sample_sys :: "sample_fs sys" where
  "sample_sys =
     \<lparr>os_Stat = sample_Stat, os_Rename = sample_Rename, os_ReadDir = sample_ReadDir,
      filepath_Glob = sample_Glob, norm_String = sample_String,
      unicode_ToUpper = id\<rparr>"

text \<open>The variables as the program starts: \<^verbatim>\<open>formName\<close> from the flag, nothing done yet.\<close>

definition start :: "'w \<Rightarrow> string \<Rightarrow> 'w state" where
  "start w name =
     \<lparr>fs = w, formName = name, formCode = NFC, fileCount = 0, dirFixed = Map.empty,
      out = [], renameCalls = []\<rparr>"

definition flags :: "bool \<Rightarrow> bool \<Rightarrow> bool \<Rightarrow> bool \<Rightarrow> config" where
  "flags r q d b = \<lparr>recurse = r, quiet = q, dryrun = d, printBoth = b\<rparr>"

text \<open>
  The tree of the examples: a plain file \<open>a\<close>, and a directory whose name is the
  decomposed accented letter, holding a file of the same name and a directory \<open>sub\<close>
  with one more such file.
\<close>

definition tree :: sample_fs where
  "tree =
     [(''a'', False),
      (e_acute_d, True),
      (e_acute_d @ ''/'' @ e_acute_d, False),
      (e_acute_d @ ''/sub'', True),
      (e_acute_d @ ''/sub/'' @ e_acute_d, False)]"

text \<open>
  A second tree, where renaming must fail: \<open>sub\<close> holds a directory under the
  decomposed name and a directory that is not empty under the composed one.
\<close>

definition clash :: sample_fs where
  "clash =
     [(''sub'', True),
      (''sub/a'', False),
      (''sub/'' @ e_acute_d, True),
      (''sub/'' @ e_acute_c, True),
      (''sub/'' @ e_acute_c @ ''/k'', False)]"

text \<open>The sample environment with a directory that cannot be listed.\<close>

definition no_listing :: "sample_fs sys" where
  "no_listing = sample_sys\<lparr>os_ReadDir := (\<lambda>w name. Inl (PathError ''open'' name))\<rparr>"

section \<open>Notions used in the statements and proofs\<close>

text \<open>
  The shape of \<^verbatim>\<open>Clean\<close>'s stack (last element first): no empty or \<open>.\<close> element, none
  with a separator, and \<open>..\<close> only at the bottom, and never in a rooted path.
\<close>

definition settled :: "bool \<Rightarrow> string list \<Rightarrow> bool" where
  "settled r s =
     ((\<forall>e\<in>set s. e \<noteq> [] \<and> e \<noteq> ''.'' \<and> CHR ''/'' \<notin> set e) \<and>
      (\<exists>ns k. s = ns @ replicate k ''..'' \<and> ''..'' \<notin> set ns \<and> (r \<longrightarrow> k = 0)))"

text \<open>
  What a finished call leaves to look at: its result, the printed strings, the calls to
  \<^verbatim>\<open>os.Rename\<close>, the counter and the filesystem.
\<close>

definition outcome ::
  "((error + unit) \<times> 'w state) option
     \<Rightarrow> ((error + unit) \<times> string list \<times> (string \<times> string) list \<times> nat \<times> 'w) option" where
  "outcome res =
     map_option (\<lambda>(r, \<sigma>). (r, out \<sigma>, renameCalls \<sigma>, fileCount \<sigma>, fs \<sigma>)) res"

text \<open>
  One state continues another: output and rename calls are only appended to, the form
  stays, and \<^verbatim>\<open>dirFixed\<close> keeps its keys.
\<close>

definition extends :: "'w state \<Rightarrow> 'w state \<Rightarrow> bool" where
  "extends \<sigma> \<sigma>' =
     ((\<exists>xs. out \<sigma>' = out \<sigma> @ xs) \<and> (\<exists>zs. renameCalls \<sigma>' = renameCalls \<sigma> @ zs) \<and>
      formCode \<sigma>' = formCode \<sigma> \<and> dom (dirFixed \<sigma>) \<subseteq> dom (dirFixed \<sigma>'))"

text \<open>
  The directory a new path is built on (lines 73 to 76): the entry of \<^verbatim>\<open>dirFixed\<close>,
  or the directory itself where there is none.
\<close>

definition fixedDir :: "'w state \<Rightarrow> string \<Rightarrow> string" where
  "fixedDir \<sigma> dir = (case dirFixed \<sigma> dir of None \<Rightarrow> dir | Some v \<Rightarrow> if v = [] then dir else v)"

section \<open>Facts about the path operations\<close>

lemma elements_not_Nil: "elements s \<noteq> []"
  by (induction s) auto

lemma elements_append_sep:
  "elements (xs @ CHR ''/'' # ys) = elements xs @ elements ys"
proof (induction xs)
  case Nil
  show ?case by simp
next
  case (Cons x xs)
  then show ?case
    by (cases "elements xs") (auto simp: elements_not_Nil)
qed

lemma elements_no_sep: "CHR ''/'' \<notin> set s \<Longrightarrow> elements s = [s]"
  by (induction s) auto

lemma elements_sep_free: "e \<in> set (elements s) \<Longrightarrow> CHR ''/'' \<notin> set e"
proof (induction s arbitrary: e)
  case Nil
  then show ?case by simp
next
  case (Cons c s)
  show ?case
  proof (cases "c = CHR ''/''")
    case True
    with Cons show ?thesis by auto
  next
    case False
    obtain h t where ht: "elements s = h # t"
      using elements_not_Nil by (cases "elements s") auto
    with Cons False show ?thesis by auto
  qed
qed

lemma Split_append: "fst (Split p) @ snd (Split p) = p"
proof -
  have "rev (takeWhile (\<lambda>c. c \<noteq> CHR ''/'') (rev p) @ dropWhile (\<lambda>c. c \<noteq> CHR ''/'') (rev p)) = p"
    by simp
  then show ?thesis
    unfolding Split_def by (simp del: takeWhile_dropWhile_id)
qed

lemma Split_leaf_sep_free: "CHR ''/'' \<notin> set (snd (Split p))"
  unfolding Split_def by (auto dest: set_takeWhileD)

lemma Split_dir_ends: "fst (Split p) \<noteq> [] \<Longrightarrow> \<exists>q. fst (Split p) = q @ ''/''"
proof -
  assume a: "fst (Split p) \<noteq> []"
  let ?d = "dropWhile (\<lambda>c. c \<noteq> CHR ''/'') (rev p)"
  from a have ne: "?d \<noteq> []" by (simp add: Split_def)
  then have "hd ?d = CHR ''/''" using hd_dropWhile[of "\<lambda>c. c \<noteq> CHR ''/''" "rev p"] by auto
  with ne have "?d = CHR ''/'' # tl ?d" by (cases ?d) auto
  then have "rev ?d = rev (tl ?d) @ ''/''" by (metis rev.simps(2))
  then show ?thesis by (auto simp: Split_def)
qed

lemma Split_join: "CHR ''/'' \<notin> set f \<Longrightarrow> Split (q @ CHR ''/'' # f) = (q @ ''/'', f)"
  by (simp add: Split_def takeWhile_append dropWhile_append) 

lemma Split_no_sep:
  assumes "CHR ''/'' \<notin> set f"
  shows "Split f = ([], f)"
proof -
  have t: "takeWhile (\<lambda>c. c \<noteq> CHR ''/'') (rev f) = rev f"
    using assms by (auto simp: takeWhile_eq_all_conv)
  have d: "dropWhile (\<lambda>c. c \<noteq> CHR ''/'') (rev f) = []"
    using assms by auto
  show ?thesis unfolding Split_def t d by simp
qed

lemma foldl_clean_step_snoc:
  "foldl (clean_step r) acc (es @ [e]) = clean_step r (foldl (clean_step r) acc es) e"
  by simp

lemma join_elems_snoc:
  "join_elems (st @ [c]) = (if st = [] then c else join_elems st @ ''/'' @ c)"
  by (induction st rule: join_elems.induct) auto

lemma rooted_append: "Y \<noteq> [] \<Longrightarrow> rooted (Y @ Z) = rooted Y"
  by (cases Y) (auto simp: rooted_def)

lemma kept_snoc_name:
  assumes "entry_name c" "Y \<noteq> []"
  shows "kept (Y @ ''/'' @ c) = kept Y @ [c]"
proof -
  have "elements (Y @ ''/'' @ c) = elements Y @ [c]"
    using assms by (simp add: elements_append_sep elements_no_sep entry_name_def)
  moreover have "rooted (Y @ ''/'' @ c) = rooted Y"
    using assms by (simp add: rooted_append)
  ultimately show ?thesis
    using assms by (simp add: kept_def entry_name_def)
qed


lemma Clean_snoc_name:
  assumes "entry_name c" "Y \<noteq> []"
  shows "Clean (Y @ ''/'' @ c) =
           (if kept Y = [] then (if rooted Y then CHR ''/'' # c else c)
            else Clean Y @ ''/'' @ c)"
  using assms
  by (simp add: Clean_def kept_snoc_name rooted_append join_elems_snoc del: append.simps)

lemma kept_trailing_sep: "kept (p @ ''/'') = kept p"
proof (cases "p = []")
  case True
  then show ?thesis by (simp add: kept_def rooted_def)
next
  case False
  have "elements (p @ ''/'') = elements p @ [[]]"
    using elements_append_sep[of p "[]"] by simp
  then show ?thesis using False by (simp add: kept_def rooted_append)
qed

lemma Clean_trailing_sep: "p \<noteq> [] \<Longrightarrow> Clean (p @ ''/'') = Clean p"
  by (simp add: Clean_def kept_trailing_sep rooted_append)

lemma Join_empty: "Join p [] = (if p = [] then [] else Clean p)"
  using Clean_trailing_sep[of p] by (simp add: Join_def)

lemma Clean_double_sep: "Clean (q @ ''/'' @ ''/'' @ f) = Clean (q @ ''/'' @ f)"
proof -
  have "elements (q @ ''/'' @ ''/'' @ f) = elements q @ [] # elements f"
    using elements_append_sep[of q "CHR ''/'' # f"] by simp
  moreover have "elements (q @ ''/'' @ f) = elements q @ elements f"
    using elements_append_sep[of q f] by simp
  moreover have "rooted (q @ ''/'' @ ''/'' @ f) = rooted (q @ ''/'' @ f)"
    by (cases q) (auto simp: rooted_def)
  ultimately show ?thesis by (simp add: Clean_def kept_def)
qed

lemma Join_Split: "Join (fst (Split p)) (snd (Split p)) = Join p []"
proof (cases "fst (Split p) = []")
  case True
  then have "snd (Split p) = p" using Split_append[of p] by simp
  have "Join [] p = Join p []"
    unfolding Join_empty by (simp add: Join_def)
  with True \<open>snd (Split p) = p\<close> show ?thesis by simp
next
  case False
  then obtain q where q: "fst (Split p) = q @ ''/''" using Split_dir_ends by blast
  have p: "p = q @ ''/'' @ snd (Split p)" using Split_append[of p] q by simp
  have "Join (fst (Split p)) (snd (Split p)) = Clean (q @ ''/'' @ ''/'' @ snd (Split p))"
    using q by (simp add: Join_def)
  also have "\<dots> = Clean p" using Clean_double_sep[of q "snd (Split p)"] p by simp
  also have "\<dots> = Join p []" using p by (auto simp: Join_empty)
  finally show ?thesis .
qed

lemma clean_step_skip: "e = [] \<or> e = ''.'' \<Longrightarrow> clean_step r s e = s"
  by auto

lemma clean_step_name:
  "e \<noteq> [] \<Longrightarrow> e \<noteq> ''.'' \<Longrightarrow> e \<noteq> ''..'' \<Longrightarrow> clean_step r s e = e # s"
  by simp

lemma clean_step_up_Nil: "clean_step r [] ''..'' = (if r then [] else [''..''])"
  by simp

lemma clean_step_up_Cons:
  "clean_step r (t # ts) ''..'' = (if t = ''..'' then ''..'' # t # ts else ts)"
  by simp

declare clean_step.simps [simp del]

lemma foldl_push:
  "\<forall>e\<in>set es. e \<noteq> [] \<and> e \<noteq> ''.'' \<and> e \<noteq> ''..'' \<Longrightarrow>
   foldl (clean_step r) acc es = rev es @ acc"
  by (induction es arbitrary: acc) (simp_all add: clean_step_name)

lemma foldl_dotdots:
  "\<not> r \<or> k = 0 \<Longrightarrow>
   foldl (clean_step r) (replicate j ''..'') (replicate k ''..'') = replicate (j + k) ''..''"
proof (induction k arbitrary: j)
  case 0
  then show ?case by simp
next
  case (Suc k)
  then have nr: "\<not> r" by simp
  have "clean_step r (replicate j ''..'') ''..'' = replicate (Suc j) ''..''"
    using nr by (cases j) (simp_all add: clean_step_up_Nil clean_step_up_Cons)
  then show ?case using Suc.IH[of "Suc j"] nr by simp
qed

lemma settled_Nil: "settled r []"
  by (simp add: settled_def)

lemma settledI:
  "\<forall>e\<in>set s. e \<noteq> [] \<and> e \<noteq> ''.'' \<and> CHR ''/'' \<notin> set e \<Longrightarrow>
   s = ns @ replicate k ''..'' \<Longrightarrow> ''..'' \<notin> set ns \<Longrightarrow> (r \<longrightarrow> k = 0) \<Longrightarrow> settled r s"
  unfolding settled_def by blast

lemma settled_step:
  assumes "settled r s" "CHR ''/'' \<notin> set e"
  shows "settled r (clean_step r s e)"
proof -
  from assms(1) obtain ns k where
    els: "\<forall>e\<in>set s. e \<noteq> [] \<and> e \<noteq> ''.'' \<and> CHR ''/'' \<notin> set e" and
    s: "s = ns @ replicate k ''..''" and ns: "''..'' \<notin> set ns" and r: "r \<longrightarrow> k = 0"
    unfolding settled_def by blast
  consider (skip) "e = [] \<or> e = ''.''" | (up) "e = ''..''"
    | (name) "e \<noteq> []" "e \<noteq> ''.''" "e \<noteq> ''..''"
    by blast
  then show ?thesis
  proof cases
    case skip
    then show ?thesis using assms(1) by (simp add: clean_step_skip)
  next
    case name
    have 1: "clean_step r s e = e # s" using name by (simp add: clean_step_name)
    have 2: "e # s = (e # ns) @ replicate k ''..''" using s by simp
    have 3: "''..'' \<notin> set (e # ns)" using ns name by simp
    have 4: "\<forall>x\<in>set (e # s). x \<noteq> [] \<and> x \<noteq> ''.'' \<and> CHR ''/'' \<notin> set x"
      using els name assms(2) by simp
    show ?thesis unfolding 1 by (rule settledI[OF 4 2 3 r])
  next
    case up
    show ?thesis
    proof (cases ns)
      case (Cons t ts)
      have t: "t \<noteq> ''..''" using ns Cons by auto
      have "s = t # (ts @ replicate k ''..'')" using s Cons by simp
      then have 1: "clean_step r s e = ts @ replicate k ''..''"
        using up t by (simp add: clean_step_up_Cons)
      have 3: "''..'' \<notin> set ts" using ns Cons by simp
      have 4: "\<forall>x\<in>set (ts @ replicate k ''..''). x \<noteq> [] \<and> x \<noteq> ''.'' \<and> CHR ''/'' \<notin> set x"
        using els s Cons by simp
      show ?thesis unfolding 1 by (rule settledI[OF 4 refl 3 r])
    next
      case Nil
      show ?thesis
      proof (cases k)
        case 0
        then have s0: "s = []" using s Nil by simp
        show ?thesis
        proof (cases r)
          case True
          then show ?thesis using up s0 by (simp add: clean_step_up_Nil settled_Nil)
        next
          case False
          have 1: "clean_step r s e = [] @ replicate 1 ''..''"
            using up s0 False by (simp add: clean_step_up_Nil)
          show ?thesis unfolding 1 by (rule settledI[OF _ refl]) (use False in simp_all)
        qed
      next
        case (Suc k')
        then have nr: "\<not> r" using r by simp
        have "s = ''..'' # replicate k' ''..''" using s Nil Suc by simp
        then have 1: "clean_step r s e = [] @ replicate (Suc k) ''..''"
          using up Suc by (simp add: clean_step_up_Cons)
        show ?thesis unfolding 1 by (rule settledI[OF _ refl]) (use nr in simp_all)
      qed
    qed
  qed
qed

lemma settled_foldl:
  "settled r s \<Longrightarrow> \<forall>e\<in>set es. CHR ''/'' \<notin> set e \<Longrightarrow> settled r (foldl (clean_step r) s es)"
  by (induction es arbitrary: s) (simp_all add: settled_step)

lemma settled_kept: "settled (rooted p) (rev (kept p))"
  unfolding kept_def using settled_foldl[OF settled_Nil] elements_sep_free by auto

lemma settled_replay:
  assumes "settled r s"
  shows "foldl (clean_step r) [] (rev s) = s"
proof -
  from assms obtain ns k where
    els: "\<forall>e\<in>set s. e \<noteq> [] \<and> e \<noteq> ''.'' \<and> CHR ''/'' \<notin> set e" and
    s: "s = ns @ replicate k ''..''" and ns: "''..'' \<notin> set ns" and r: "r \<longrightarrow> k = 0"
    by (auto simp: settled_def)
  have a: "foldl (clean_step r) [] (replicate k ''..'') = replicate k ''..''"
    using foldl_dotdots[of r k 0] r by auto
  have b: "\<forall>e\<in>set (rev ns). e \<noteq> [] \<and> e \<noteq> ''.'' \<and> e \<noteq> ''..''"
    using els s ns by auto
  have "rev s = replicate k ''..'' @ rev ns" using s by simp
  then have "foldl (clean_step r) [] (rev s) = foldl (clean_step r) (replicate k ''..'') (rev ns)"
    using a by simp
  also have "\<dots> = ns @ replicate k ''..''" using foldl_push[OF b] by simp
  finally show ?thesis using s by simp
qed

lemma elements_join_elems:
  "st \<noteq> [] \<Longrightarrow> \<forall>e\<in>set st. CHR ''/'' \<notin> set e \<Longrightarrow> elements (join_elems st) = st"
proof (induction st rule: join_elems.induct)
  case 1
  then show ?case by simp
next
  case (2 e)
  then show ?case by (simp add: elements_no_sep)
next
  case (3 e v va)
  have "elements (e @ CHR ''/'' # join_elems (v # va)) = elements e @ elements (join_elems (v # va))"
    by (rule elements_append_sep)
  with 3 show ?case by (simp add: elements_no_sep)
qed

lemma rooted_join_elems:
  "st \<noteq> [] \<Longrightarrow> \<forall>e\<in>set st. e \<noteq> [] \<and> CHR ''/'' \<notin> set e \<Longrightarrow> \<not> rooted (join_elems st)"
proof (induction st rule: join_elems.induct)
  case 1
  then show ?case by simp
next
  case (2 e)
  then show ?case by (cases e) (auto simp: rooted_def)
next
  case (3 e v va)
  then show ?case by (cases e) (auto simp: rooted_def)
qed

lemma kept_Clean: "kept (Clean p) = kept p" and rooted_Clean: "rooted (Clean p) = rooted p"
proof -
  let ?st = "kept p"
  have st: "settled (rooted p) (rev ?st)" by (rule settled_kept)
  then have els: "\<forall>e\<in>set ?st. e \<noteq> [] \<and> CHR ''/'' \<notin> set e"
    by (auto simp: settled_def)
  have replay: "rev (foldl (clean_step (rooted p)) [] ?st) = ?st"
    using settled_replay[OF st] by simp
  show r: "rooted (Clean p) = rooted p"
  proof (cases "rooted p")
    case True
    then show ?thesis by (simp add: Clean_def rooted_def)
  next
    case False
    then show ?thesis
      using rooted_join_elems[of ?st] els by (auto simp: Clean_def rooted_def)
  qed
  show "kept (Clean p) = kept p"
  proof (cases "?st = []")
    case True
    then show ?thesis
      using r unfolding kept_def[of "Clean p"] r
      by (cases "rooted p") (auto simp: Clean_def clean_step_skip)
  next
    case False
    have e: "elements (join_elems ?st) = ?st"
      using elements_join_elems[OF False] els by blast
    show ?thesis
      unfolding kept_def[of "Clean p"] r
      using False e replay by (cases "rooted p") (auto simp: Clean_def clean_step_skip)
  qed
qed

lemma Clean_Clean: "Clean (Clean p) = Clean p"
  unfolding Clean_def[of "Clean p"] kept_Clean rooted_Clean by (simp add: Clean_def)

lemma Clean_not_Nil: "Clean p \<noteq> []"
proof (cases "rooted p \<or> kept p = []")
  case True
  then show ?thesis by (auto simp: Clean_def)
next
  case False
  have "settled (rooted p) (rev (kept p))" by (rule settled_kept)
  then have "\<forall>e\<in>set (kept p). e \<noteq> []" by (auto simp: settled_def)
  with False have "join_elems (kept p) \<noteq> []"
    by (cases "kept p" rule: join_elems.cases) auto
  with False show ?thesis by (simp add: Clean_def)
qed

lemma Join_Join_empty: "Join (Join a b) [] = Join a b"
  unfolding Join_empty[of "Join a b"]
  by (auto simp: Join_def Clean_Clean)

lemma kept_name: "entry_name c \<Longrightarrow> kept c = [c]"
  by (simp add: kept_def elements_no_sep entry_name_def clean_step_name)

lemma kept_sep_name: "entry_name c \<Longrightarrow> kept (CHR ''/'' # c) = [c]"
  by (simp add: kept_def elements_no_sep entry_name_def clean_step_name clean_step_skip)

lemma kept_snoc_any:
  assumes "entry_name c"
  shows "kept (Y @ ''/'' @ c) = kept Y @ [c]"
proof (cases "Y = []")
  case True
  have "kept [] = []" by (simp add: kept_def clean_step_skip)
  with True show ?thesis using kept_sep_name[OF assms] by simp
next
  case False
  then show ?thesis using kept_snoc_name[OF assms] by simp
qed

lemma kept_leaf:
  assumes "Split P = (dir, leaf)" "entry_name leaf"
  shows "P \<noteq> [] \<and> kept P \<noteq> []"
proof -
  have P: "P = dir @ leaf" using Split_append[of P] assms(1) by simp
  have ne: "P \<noteq> []" using P assms(2) by (simp add: entry_name_def)
  show ?thesis
  proof (cases "dir = []")
    case True
    then show ?thesis using P ne kept_name[OF assms(2)] by simp
  next
    case False
    then obtain q where "dir = q @ ''/''"
      using Split_dir_ends[of P] assms(1) by auto
    then have "kept P = kept q @ [leaf]"
      using P kept_snoc_any[OF assms(2), of q] by simp
    then show ?thesis using ne by simp
  qed
qed

lemma Join_nonempty: "a \<noteq> [] \<Longrightarrow> Join a b = Clean (a @ ''/'' @ b)"
  by (simp add: Join_def)

lemma Join_Nil_left: "Join [] b = (if b = [] then [] else Clean b)"
  by (simp add: Join_def)

lemma Clean_name: 
  assumes "entry_name b"
  shows "Clean b = b"
proof -
  have "\<not> rooted b"
    using assms by (cases b) (auto simp: rooted_def entry_name_def)
  then show ?thesis using kept_name[OF assms] by (simp add: Clean_def)
qed

lemma Join_child:
  assumes "entry_name c" "A \<noteq> []" "kept A \<noteq> []"
  shows "Join A c = Join A [] @ sep @ c"
  unfolding Join_nonempty[OF assms(2)] Join_empty Clean_snoc_name[OF assms(1,2)]
  using assms by (simp add: sep_def)

lemma Split_child:
  assumes "entry_name c" "A \<noteq> []" "kept A \<noteq> []"
  shows "Split (Join A c) = (Join A [] @ sep, c)"
proof -
  have "CHR ''/'' \<notin> set c" using assms(1) by (simp add: entry_name_def)
  from Split_join[OF this, of "Join A []"] show ?thesis
    unfolding Join_child[OF assms] by (simp add: sep_def)
qed

lemma Join_name:
  assumes "entry_name b"
  shows "Join a b \<noteq> [] \<and> kept (Join a b) \<noteq> [] \<and> snd (Split (Join a b)) = b"
proof -
  have nosep: "CHR ''/'' \<notin> set b" and ne: "b \<noteq> []"
    using assms by (simp_all add: entry_name_def)
  show ?thesis
  proof (cases "a = []")
    case True
    then have "Join a b = b"
      using ne Clean_name[OF assms] by (simp add: Join_Nil_left)
    then show ?thesis
      using ne kept_name[OF assms] Split_no_sep[OF nosep] by simp
  next
    case False
    have k: "kept (a @ ''/'' @ b) = kept a @ [b]" by (rule kept_snoc_any[OF assms])
    have j: "Join a b = Clean (a @ ''/'' @ b)" by (rule Join_nonempty[OF False])
    have 1: "Join a b \<noteq> []" unfolding j by (rule Clean_not_Nil)
    have 2: "kept (Join a b) \<noteq> []" unfolding j kept_Clean k by simp
    have 3: "snd (Split (Join a b)) = b"
      unfolding j Clean_snoc_name[OF assms False]
      using Split_join[OF nosep, of "[]"] Split_join[OF nosep, of "Clean a"] Split_no_sep[OF nosep]
      by auto
    show ?thesis using 1 2 3 by blast
  qed
qed

lemma length_Clean_min: "1 \<le> length (Clean p)"
  using Clean_not_Nil[of p] by (cases "Clean p") auto

lemma length_Join_child:
  assumes "entry_name f"
  shows "length (Join a []) \<le> length (Join a f)"
proof (cases "a = []")
  case True
  then show ?thesis by (simp add: Join_empty)
next
  case False
  have "f \<noteq> []" using assms by (simp add: entry_name_def)
  then have f: "1 \<le> length f" by (cases f) auto
  show ?thesis
  proof (cases "kept a = []")
    case True
    then have "length (Clean a) = 1" by (simp add: Clean_def)
    then show ?thesis
      unfolding Join_nonempty[OF False] Join_empty Clean_snoc_name[OF assms False]
      using f False True by simp
  next
    case k: False
    show ?thesis
      unfolding Join_nonempty[OF False] Join_empty Clean_snoc_name[OF assms False]
      using False k by simp
  qed
qed

section \<open>Facts about process\<close>

lemma rename_entry_unchanged:
  assumes "normalize S \<sigma> (snd (Split p)) = snd (Split p)"
  shows "rename_entry S C \<sigma> p = (Inr (Join p [], p), \<sigma>)"
  using assms Join_Split[of p]
  by (simp add: rename_entry_def Let_def split_beta)

lemma process_unchanged:
  assumes "normalize S \<sigma> (snd (Split p)) = snd (Split p)"
  shows "process S C (Suc n) \<sigma> p =
     (case os_Stat S (fs \<sigma>) p of
        Inl err \<Rightarrow> Some (Inl err, \<sigma>)
      | Inr isDir \<Rightarrow>
          if isDir then
            (if recurse C then
               (case os_ReadDir S (fs \<sigma>) p of
                  Inl e \<Rightarrow> Some (Inl e, \<sigma>\<lparr>dirFixed := (dirFixed \<sigma>)(Join p [] @ sep \<mapsto> Join p [] @ sep)\<rparr>)
                | Inr d \<Rightarrow> process_entries S C n
                     (\<sigma>\<lparr>dirFixed := (dirFixed \<sigma>)(Join p [] @ sep \<mapsto> Join p [] @ sep)\<rparr>) p d)
             else Some (Inr (), \<sigma>\<lparr>dirFixed := (dirFixed \<sigma>)(Join p [] @ sep \<mapsto> Join p [] @ sep)\<rparr>))
          else Some (Inr (), \<sigma>))"
  by (simp add: rename_entry_unchanged[OF assms] Join_Join_empty Let_def split: sum.splits)

lemma Split_trailing: "Split (q @ sep) = (q @ sep, [])"
  by (simp add: Split_def sep_def)

lemma entries_related:
  assumes refl: "\<forall>\<sigma>. R \<sigma> \<sigma>"
      and trans: "\<forall>\<sigma>1 \<sigma>2 \<sigma>3. R \<sigma>1 \<sigma>2 \<longrightarrow> R \<sigma>2 \<sigma>3 \<longrightarrow> R \<sigma>1 \<sigma>3"
      and one: "\<forall>\<sigma> p r \<sigma>'. process S C n \<sigma> p = Some (r, \<sigma>') \<longrightarrow> R \<sigma> \<sigma>'"
  shows "process_entries S C n \<sigma> a d = Some (r, \<sigma>') \<Longrightarrow> R \<sigma> \<sigma>'"
proof (induction d arbitrary: \<sigma>)
  case Nil
  then show ?case using refl by simp
next
  case (Cons f d)
  from Cons.prems obtain r1 \<sigma>1 where p1: "process S C n \<sigma> (Join a f) = Some (r1, \<sigma>1)"
    by (cases "process S C n \<sigma> (Join a f)") auto
  have R1: "R \<sigma> \<sigma>1" using one p1 by blast
  show ?case
  proof (cases r1)
    case (Inl e)
    with Cons.prems p1 have "\<sigma>' = \<sigma>1" by simp
    with R1 show ?thesis by simp
  next
    case (Inr u)
    with Cons.prems p1 have "process_entries S C n \<sigma>1 a d = Some (r, \<sigma>')" by simp
    from Cons.IH[OF this] R1 show ?thesis using trans by blast
  qed
qed

lemma process_Suc_cases:
  assumes "process S C (Suc n) \<sigma> p = Some (r, \<sigma>')"
  obtains (stat) e where "os_Stat S (fs \<sigma>) p = Inl e" "r = Inl e" "\<sigma>' = \<sigma>"
    | (rename) isDir e where "os_Stat S (fs \<sigma>) p = Inr isDir"
        "rename_entry S C \<sigma> p = (Inl e, \<sigma>')" "r = Inl e"
    | (leaf) newName actualName where "os_Stat S (fs \<sigma>) p = Inr False"
        "rename_entry S C \<sigma> p = (Inr (newName, actualName), \<sigma>')" "r = Inr ()"
    | (flat) newName actualName \<sigma>1 where "os_Stat S (fs \<sigma>) p = Inr True"
        "rename_entry S C \<sigma> p = (Inr (newName, actualName), \<sigma>1)" "\<not> recurse C" "r = Inr ()"
        "\<sigma>' = \<sigma>1\<lparr>dirFixed := (dirFixed \<sigma>1)(Join p [] @ sep \<mapsto> Join newName [] @ sep)\<rparr>"
    | (unread) newName actualName \<sigma>1 e where "os_Stat S (fs \<sigma>) p = Inr True"
        "rename_entry S C \<sigma> p = (Inr (newName, actualName), \<sigma>1)" "recurse C"
        "os_ReadDir S (fs \<sigma>1) actualName = Inl e" "r = Inl e"
        "\<sigma>' = \<sigma>1\<lparr>dirFixed := (dirFixed \<sigma>1)(Join p [] @ sep \<mapsto> Join newName [] @ sep)\<rparr>"
    | (deep) newName actualName \<sigma>1 d where "os_Stat S (fs \<sigma>) p = Inr True"
        "rename_entry S C \<sigma> p = (Inr (newName, actualName), \<sigma>1)" "recurse C"
        "os_ReadDir S (fs \<sigma>1) actualName = Inr d"
        "process_entries S C n
           (\<sigma>1\<lparr>dirFixed := (dirFixed \<sigma>1)(Join p [] @ sep \<mapsto> Join newName [] @ sep)\<rparr>)
           actualName d = Some (r, \<sigma>')"
proof (cases "os_Stat S (fs \<sigma>) p")
  case (Inl e)
  with assms have "r = Inl e" "\<sigma>' = \<sigma>" by simp_all
  with Inl show ?thesis by (rule stat)
next
  case st: (Inr isDir)
  obtain res \<sigma>1 where re: "rename_entry S C \<sigma> p = (res, \<sigma>1)"
    by (cases "rename_entry S C \<sigma> p") auto
  show ?thesis
  proof (cases res)
    case (Inl e)
    with assms st re have "r = Inl e" "\<sigma>' = \<sigma>1" by simp_all
    with st re Inl show ?thesis by (intro rename) simp_all
  next
    case (Inr names)
    obtain newName actualName where names: "names = (newName, actualName)"
      by (cases names) auto
    have re': "rename_entry S C \<sigma> p = (Inr (newName, actualName), \<sigma>1)"
      using re Inr names by simp
    show ?thesis
    proof (cases isDir)
      case False
      with assms st re' have "r = Inr ()" "\<sigma>' = \<sigma>1" by simp_all
      with st re' False show ?thesis by (intro leaf) simp_all
    next
      case True
      have st': "os_Stat S (fs \<sigma>) p = Inr True" using st True by simp
      let ?\<sigma>2 = "\<sigma>1\<lparr>dirFixed := (dirFixed \<sigma>1)(Join p [] @ sep \<mapsto> Join newName [] @ sep)\<rparr>"
      show ?thesis
      proof (cases "recurse C")
        case False
        with assms st' re' have "r = Inr ()" "\<sigma>' = ?\<sigma>2" by (simp_all add: Let_def)
        with st' re' False show ?thesis by (intro flat) simp_all
      next
        case rec: True
        show ?thesis
        proof (cases "os_ReadDir S (fs \<sigma>1) actualName")
          case (Inl e)
          with assms st' re' rec have "r = Inl e" "\<sigma>' = ?\<sigma>2" by (simp_all add: Let_def)
          with st' re' rec Inl show ?thesis by (intro unread) simp_all
        next
          case (Inr d)
          with assms st' re' rec
          have "process_entries S C n ?\<sigma>2 actualName d = Some (r, \<sigma>')"
            by (simp add: Let_def)
          with st' re' rec Inr show ?thesis by (intro deep) simp_all
        qed
      qed
    qed
  qed
qed

lemma process_related:
  assumes refl: "\<And>\<sigma>. R \<sigma> \<sigma>"
      and trans: "\<And>\<sigma>1 \<sigma>2 \<sigma>3. R \<sigma>1 \<sigma>2 \<Longrightarrow> R \<sigma>2 \<sigma>3 \<Longrightarrow> R \<sigma>1 \<sigma>3"
      and entry: "\<And>\<sigma> p res \<sigma>1. rename_entry S C \<sigma> p = (res, \<sigma>1) \<Longrightarrow> R \<sigma> \<sigma>1"
      and store: "\<And>\<sigma> k v. R \<sigma> (\<sigma>\<lparr>dirFixed := (dirFixed \<sigma>)(k \<mapsto> v)\<rparr>)"
  shows "process S C n \<sigma> p = Some (r, \<sigma>') \<Longrightarrow> R \<sigma> \<sigma>'"
proof (induction n arbitrary: \<sigma> p r \<sigma>')
  case 0
  then show ?case by simp
next
  case (Suc n)
  have loop: "\<And>\<sigma> a d r \<sigma>'. process_entries S C n \<sigma> a d = Some (r, \<sigma>') \<Longrightarrow> R \<sigma> \<sigma>'"
    using entries_related[of R S C n] refl trans Suc.IH by blast
  from Suc.prems show ?case
  proof (cases rule: process_Suc_cases)
    case (stat e)
    then show ?thesis using refl by simp
  next
    case (rename isDir e)
    then show ?thesis using entry by blast
  next
    case (leaf newName actualName)
    then show ?thesis using entry by blast
  next
    case (flat newName actualName \<sigma>1)
    then show ?thesis using entry[OF flat(2)] store trans by blast
  next
    case (unread newName actualName \<sigma>1 e)
    then show ?thesis using entry[OF unread(2)] store trans by blast
  next
    case (deep newName actualName \<sigma>1 d)
    have "R \<sigma> \<sigma>1" using entry[OF deep(2)] .
    moreover have "R \<sigma>1 (\<sigma>1\<lparr>dirFixed := (dirFixed \<sigma>1)(Join p [] @ sep \<mapsto> Join newName [] @ sep)\<rparr>)"
      using store .
    moreover note loop[OF deep(5)]
    ultimately show ?thesis using trans by blast
  qed
qed

lemma extends_refl: "extends \<sigma> \<sigma>"
  by (simp add: extends_def)

lemma extends_trans:
  assumes "extends a b" "extends b c"
  shows "extends a c"
proof -
  from assms obtain xs ys zs ws where
    "out b = out a @ xs" "out c = out b @ ys"
    "renameCalls b = renameCalls a @ zs" "renameCalls c = renameCalls b @ ws"
    unfolding extends_def by blast
  then have "out c = out a @ (xs @ ys)" "renameCalls c = renameCalls a @ (zs @ ws)"
    by simp_all
  moreover have "formCode c = formCode a" "dom (dirFixed a) \<subseteq> dom (dirFixed c)"
    using assms unfolding extends_def by auto
  ultimately show ?thesis unfolding extends_def by blast
qed


lemma rename_entry_extends: "rename_entry S C \<sigma> p = (res, \<sigma>1) \<Longrightarrow> extends \<sigma> \<sigma>1"
  by (auto simp: rename_entry_def extends_def Let_def split_beta split: if_splits sum.splits)

lemma rename_entry_dirFixed: "rename_entry S C \<sigma> p = (res, \<sigma>1) \<Longrightarrow> dirFixed \<sigma>1 = dirFixed \<sigma>"
  by (auto simp: rename_entry_def Let_def split_beta split: if_splits sum.splits)

lemma store_extends: "extends \<sigma> (\<sigma>\<lparr>dirFixed := (dirFixed \<sigma>)(k \<mapsto> v)\<rparr>)"
  by (auto simp: extends_def)

lemma process_extends: "process S C n \<sigma> p = Some (r, \<sigma>') \<Longrightarrow> extends \<sigma> \<sigma>'"
  by (rule process_related[where R = extends])
     (auto intro: extends_refl extends_trans rename_entry_extends store_extends)

lemma process_entries_extends:
  "process_entries S C n \<sigma> a d = Some (r, \<sigma>') \<Longrightarrow> extends \<sigma> \<sigma>'"
  by (rule entries_related[where R = extends])
     (auto intro: extends_refl extends_trans process_extends)

lemma names_related:
  assumes refl: "\<forall>\<sigma>. R \<sigma> \<sigma>"
      and trans: "\<forall>\<sigma>1 \<sigma>2 \<sigma>3. R \<sigma>1 \<sigma>2 \<longrightarrow> R \<sigma>2 \<sigma>3 \<longrightarrow> R \<sigma>1 \<sigma>3"
      and one: "\<forall>\<sigma> p r \<sigma>'. process S C n \<sigma> p = Some (r, \<sigma>') \<longrightarrow> R \<sigma> \<sigma>'"
  shows "process_names S C n \<sigma> l = Some (r, \<sigma>') \<Longrightarrow> R \<sigma> \<sigma>'"
proof (induction l arbitrary: \<sigma>)
  case Nil
  then show ?case using refl by simp
next
  case (Cons name l)
  from Cons.prems obtain r1 \<sigma>1 where p1: "process S C n \<sigma> name = Some (r1, \<sigma>1)"
    by (cases "process S C n \<sigma> name") auto
  have R1: "R \<sigma> \<sigma>1" using one p1 by blast
  show ?case
  proof (cases r1)
    case (Inl e)
    with Cons.prems p1 have "\<sigma>' = \<sigma>1" by simp
    with R1 show ?thesis by simp
  next
    case (Inr u)
    with Cons.prems p1 have "process_names S C n \<sigma>1 l = Some (r, \<sigma>')" by simp
    from Cons.IH[OF this] R1 show ?thesis using trans by blast
  qed
qed

lemma patterns_related:
  assumes refl: "\<forall>\<sigma>. R \<sigma> \<sigma>"
      and trans: "\<forall>\<sigma>1 \<sigma>2 \<sigma>3. R \<sigma>1 \<sigma>2 \<longrightarrow> R \<sigma>2 \<sigma>3 \<longrightarrow> R \<sigma>1 \<sigma>3"
      and one: "\<forall>\<sigma> p r \<sigma>'. process S C n \<sigma> p = Some (r, \<sigma>') \<longrightarrow> R \<sigma> \<sigma>'"
  shows "run_patterns S C n \<sigma> args = Some (r, \<sigma>') \<Longrightarrow> R \<sigma> \<sigma>'"
proof (induction args arbitrary: \<sigma>)
  case Nil
  then show ?case using refl by simp
next
  case (Cons pattern args)
  show ?case
  proof (cases "filepath_Glob S (fs \<sigma>) pattern")
    case (Inl e)
    with Cons.prems have "\<sigma>' = \<sigma>" by simp
    then show ?thesis using refl by simp
  next
    case (Inr l)
    with Cons.prems obtain r1 \<sigma>1 where p1: "process_names S C n \<sigma> l = Some (r1, \<sigma>1)"
      by (cases "process_names S C n \<sigma> l") auto
    have R1: "R \<sigma> \<sigma>1" using names_related[OF refl trans one p1] .
    show ?thesis
    proof (cases r1)
      case (Inl e)
      with Cons.prems p1 \<open>filepath_Glob S (fs \<sigma>) pattern = Inr l\<close> have "\<sigma>' = \<sigma>1" by simp
      with R1 show ?thesis by simp
    next
      case (Inr u)
      with Cons.prems p1 \<open>filepath_Glob S (fs \<sigma>) pattern = Inr l\<close>
      have "run_patterns S C n \<sigma>1 args = Some (r, \<sigma>')" by simp
      from Cons.IH[OF this] R1 show ?thesis using trans by blast
    qed
  qed
qed

lemma rename_entry_dry:
  "dryrun C \<Longrightarrow> rename_entry S C \<sigma> p = (res, \<sigma>1) \<Longrightarrow>
   fs \<sigma>1 = fs \<sigma> \<and> renameCalls \<sigma>1 = renameCalls \<sigma>"
  by (auto simp: rename_entry_def Let_def split_beta split: if_splits)

lemma process_dry:
  assumes "dryrun C" "process S C n \<sigma> p = Some (r, \<sigma>')"
  shows "fs \<sigma>' = fs \<sigma> \<and> renameCalls \<sigma>' = renameCalls \<sigma>"
  by (rule process_related[where R = "\<lambda>\<sigma> \<sigma>'. fs \<sigma>' = fs \<sigma> \<and> renameCalls \<sigma>' = renameCalls \<sigma>",
        OF _ _ _ _ assms(2)])
     (use assms(1) in \<open>auto dest: rename_entry_dry\<close>)

lemma rename_entry_changed:
  assumes "Split p = (dir, fname)" "normalize S \<sigma> fname \<noteq> fname"
  shows "rename_entry S C \<sigma> p =
     (let newName = Join (fixedDir \<sigma> dir) (normalize S \<sigma> fname);
          \<sigma>2 = \<sigma>\<lparr>fileCount := fileCount \<sigma> + 1,
                  out := out \<sigma> @ (if quiet C then [] else [printed C p newName])\<rparr>
      in if dryrun C then (Inr (newName, p), \<sigma>2)
         else (case os_Rename S (fs \<sigma>) p newName of
                 Inl err \<Rightarrow> (Inl err, \<sigma>2\<lparr>renameCalls := renameCalls \<sigma> @ [(p, newName)]\<rparr>)
               | Inr w \<Rightarrow> (Inr (newName, newName),
                           \<sigma>2\<lparr>renameCalls := renameCalls \<sigma> @ [(p, newName)], fs := w\<rparr>)))"
  using assms
  by (simp add: rename_entry_def fixedDir_def Let_def split: sum.splits option.splits)

lemma entries_stop:
  "process_entries S C n \<sigma> a xs = Some (Inr (), \<tau>0) \<Longrightarrow>
   process S C n \<tau>0 (Join a f) = Some (Inl e, \<tau>) \<Longrightarrow>
   process_entries S C n \<sigma> a (xs @ f # ys) = Some (Inl e, \<tau>)"
proof (induction xs arbitrary: \<sigma>)
  case Nil
  then show ?case by simp
next
  case (Cons x xs)
  then show ?case
    by (auto split: option.splits sum.splits)
qed

lemma names_stop:
  "process_names S C n \<sigma> xs = Some (Inr (), \<tau>0) \<Longrightarrow>
   process S C n \<tau>0 name = Some (Inl e, \<tau>) \<Longrightarrow>
   process_names S C n \<sigma> (xs @ name # ys) = Some (Inl e, \<tau>)"
proof (induction xs arbitrary: \<sigma>)
  case Nil
  then show ?case by simp
next
  case (Cons x xs)
  then show ?case
    by (auto split: option.splits sum.splits)
qed

lemma upper_byte_ascii: "(of_char (upper_byte c) :: nat) < 128 \<Longrightarrow> (of_char c :: nat) < 128"
  by (auto simp: upper_byte_def split: if_splits)

lemma ToUpper_ascii:
  assumes "list_all (\<lambda>c. (of_char c :: nat) < 128) (map upper_byte f)"
  shows "strings_ToUpper S f = map upper_byte f"
proof -
  have "list_all (\<lambda>c. (of_char c :: nat) < 128) f"
    using assms by (induction f) (auto dest: upper_byte_ascii)
  then show ?thesis by (simp add: strings_ToUpper_def)
qed

lemma ToUpper_names:
  assumes "map upper_byte f \<in> {''NFC'', ''WIN'', ''NFD'', ''MAC'', ''NFKC'', ''NFKD''}"
  shows "strings_ToUpper S f = map upper_byte f"
proof (rule ToUpper_ascii)
  from assms show "list_all (\<lambda>c. (of_char c :: nat) < 128) (map upper_byte f)"
    by (elim insertE emptyE) simp_all
qed

lemma rename_entry_dry_actual:
  "dryrun C \<Longrightarrow> rename_entry S C \<sigma> p = (Inr (newName, actualName), \<sigma>1) \<Longrightarrow> actualName = p"
  by (auto simp: rename_entry_def Let_def split_beta split: if_splits)

lemma extends_formCode: "extends \<sigma> \<sigma>' \<Longrightarrow> formCode \<sigma>' = formCode \<sigma>"
  by (simp add: extends_def)

lemma normalize_extends: "extends \<sigma> \<sigma>' \<Longrightarrow> normalize S \<sigma>' = normalize S \<sigma>"
  by (auto simp: normalize_def extends_def)

text \<open>In a dry run a key no longer than the cleaned path is never written.\<close>

lemma dry_frame_entries:
  assumes one: "\<forall>\<sigma> p r \<sigma>' k. process S C n \<sigma> p = Some (r, \<sigma>') \<longrightarrow>
                   length k \<le> length (Join p []) \<longrightarrow> dirFixed \<sigma>' k = dirFixed \<sigma> k"
  shows "process_entries S C n \<sigma> a d = Some (r, \<sigma>') \<Longrightarrow> \<forall>f\<in>set d. entry_name f \<Longrightarrow>
         length k \<le> length (Join a []) \<Longrightarrow> dirFixed \<sigma>' k = dirFixed \<sigma> k"
proof (induction d arbitrary: \<sigma>)
  case Nil
  then show ?case by simp
next
  case (Cons f d)
  from Cons.prems(1) obtain r1 \<sigma>1 where p1: "process S C n \<sigma> (Join a f) = Some (r1, \<sigma>1)"
    by (cases "process S C n \<sigma> (Join a f)") auto
  have "length k \<le> length (Join (Join a f) [])"
    using Cons.prems(2,3) length_Join_child[of f a] by (simp add: Join_Join_empty)
  with one p1 have 1: "dirFixed \<sigma>1 k = dirFixed \<sigma> k" by blast
  show ?case
  proof (cases r1)
    case (Inl e)
    with Cons.prems(1) p1 have "\<sigma>' = \<sigma>1" by simp
    with 1 show ?thesis by simp
  next
    case (Inr u)
    with Cons.prems(1) p1 have "process_entries S C n \<sigma>1 a d = Some (r, \<sigma>')" by simp
    from Cons.IH[OF this] Cons.prems(2,3) 1 show ?thesis by simp
  qed
qed

lemma dry_frame:
  assumes dry: "dryrun C"
      and names: "\<forall>w q l. os_ReadDir S w q = Inr l \<longrightarrow> (\<forall>f\<in>set l. entry_name f)"
  shows "process S C n \<sigma> p = Some (r, \<sigma>') \<Longrightarrow> length k \<le> length (Join p []) \<Longrightarrow>
         dirFixed \<sigma>' k = dirFixed \<sigma> k"
proof (induction n arbitrary: \<sigma> p r \<sigma>' k)
  case 0
  then show ?case by simp
next
  case (Suc n)
  have key: "k \<noteq> Join p [] @ sep" using Suc.prems(2) by (auto simp: sep_def)
  from Suc.prems(1) show ?case
  proof (cases rule: process_Suc_cases)
    case (stat e)
    then show ?thesis by simp
  next
    case (rename isDir e)
    then show ?thesis using rename_entry_dirFixed by metis
  next
    case (leaf newName actualName)
    then show ?thesis using rename_entry_dirFixed by metis
  next
    case (flat newName actualName \<sigma>1)
    then show ?thesis using rename_entry_dirFixed[OF flat(2)] key by simp
  next
    case (unread newName actualName \<sigma>1 e)
    then show ?thesis using rename_entry_dirFixed[OF unread(2)] key by simp
  next
    case (deep newName actualName \<sigma>1 d)
    have a: "actualName = p" using rename_entry_dry_actual[OF dry deep(2)] .
    have d: "\<forall>f\<in>set d. entry_name f" using names deep(4) by blast
    have "dirFixed \<sigma>' k =
          dirFixed (\<sigma>1\<lparr>dirFixed := (dirFixed \<sigma>1)(Join p [] @ sep \<mapsto> Join newName [] @ sep)\<rparr>) k"
      using dry_frame_entries[of S C n, OF _ deep(5)[unfolded a] d Suc.prems(2)] Suc.IH
      by blast
    then show ?thesis using rename_entry_dirFixed[OF deep(2)] key by simp
  qed
qed

text \<open>A key whose directory keeps its name goes on reading as itself.\<close>

lemma fixedDir_store:
  "fixedDir (\<sigma>\<lparr>dirFixed := (dirFixed \<sigma>)(k \<mapsto> v)\<rparr>) k' =
     (if k' = k then (if v = [] then k else v) else fixedDir \<sigma> k')"
  by (simp add: fixedDir_def)

lemma fixedDir_cong: "dirFixed \<sigma>' = dirFixed \<sigma> \<Longrightarrow> fixedDir \<sigma>' = fixedDir \<sigma>"
  by (auto simp: fixedDir_def)

lemma keep_frame_entries:
  assumes one: "\<forall>\<sigma> p r \<sigma>'. process S C n \<sigma> p = Some (r, \<sigma>') \<longrightarrow> formCode \<sigma> = g \<longrightarrow>
                   (Join p [] = N \<longrightarrow> norm_String S g (snd (Split p)) = snd (Split p)) \<longrightarrow>
                   fixedDir \<sigma> (N @ sep) = N @ sep \<longrightarrow> fixedDir \<sigma>' (N @ sep) = N @ sep"
      and N: "norm_String S g (snd (Split N)) = snd (Split N)"
  shows "process_entries S C n \<sigma> a d = Some (r, \<sigma>') \<Longrightarrow> formCode \<sigma> = g \<Longrightarrow>
         fixedDir \<sigma> (N @ sep) = N @ sep \<Longrightarrow> fixedDir \<sigma>' (N @ sep) = N @ sep"
proof (induction d arbitrary: \<sigma>)
  case Nil
  then show ?case by simp
next
  case (Cons f d)
  from Cons.prems(1) obtain r1 \<sigma>1 where p1: "process S C n \<sigma> (Join a f) = Some (r1, \<sigma>1)"
    by (cases "process S C n \<sigma> (Join a f)") auto
  have "Join (Join a f) [] = N \<longrightarrow> norm_String S g (snd (Split (Join a f))) = snd (Split (Join a f))"
    using N by (simp add: Join_Join_empty)
  with one p1 Cons.prems(2,3) have 1: "fixedDir \<sigma>1 (N @ sep) = N @ sep" by blast
  have g1: "formCode \<sigma>1 = g"
    using process_extends[OF p1] Cons.prems(2) by (simp add: extends_def)
  show ?case
  proof (cases r1)
    case (Inl e)
    with Cons.prems(1) p1 have "\<sigma>' = \<sigma>1" by simp
    with 1 show ?thesis by simp
  next
    case (Inr u)
    with Cons.prems(1) p1 have "process_entries S C n \<sigma>1 a d = Some (r, \<sigma>')" by simp
    from Cons.IH[OF this g1 1] show ?thesis .
  qed
qed

lemma keep_frame:
  assumes N: "norm_String S g (snd (Split N)) = snd (Split N)"
  shows "process S C n \<sigma> p = Some (r, \<sigma>') \<Longrightarrow> formCode \<sigma> = g \<Longrightarrow>
         (Join p [] = N \<longrightarrow> norm_String S g (snd (Split p)) = snd (Split p)) \<Longrightarrow>
         fixedDir \<sigma> (N @ sep) = N @ sep \<Longrightarrow> fixedDir \<sigma>' (N @ sep) = N @ sep"
proof (induction n arbitrary: \<sigma> p r \<sigma>')
  case 0
  then show ?case by simp
next
  case (Suc n)
  note g = Suc.prems(2) and leafp = Suc.prems(3) and pre = Suc.prems(4)
  have stored: "fixedDir (\<sigma>1\<lparr>dirFixed := (dirFixed \<sigma>1)(Join p [] @ sep \<mapsto> Join newName [] @ sep)\<rparr>)
                  (N @ sep) = N @ sep"
    if re: "rename_entry S C \<sigma> p = (Inr (newName, actualName), \<sigma>1)"
    for newName actualName \<sigma>1
  proof (cases "Join p [] = N")
    case True
    then have "normalize S \<sigma> (snd (Split p)) = snd (Split p)"
      using leafp g by (simp add: normalize_def)
    from rename_entry_unchanged[OF this, of C] re have nn: "newName = Join p []" by simp
    have "Join N [] = N" using True Join_Join_empty[of p "[]"] by simp
    then show ?thesis using True nn by (simp add: fixedDir_store sep_def)
  next
    case False
    then have "N @ sep \<noteq> Join p [] @ sep" by simp
    then show ?thesis
      using pre fixedDir_cong[OF rename_entry_dirFixed[OF re]] by (simp add: fixedDir_store)
  qed
  from Suc.prems(1) show ?case
  proof (cases rule: process_Suc_cases)
    case (stat e)
    then show ?thesis using pre by simp
  next
    case (rename isDir e)
    then show ?thesis using pre fixedDir_cong[OF rename_entry_dirFixed[OF rename(2)]] by simp
  next
    case (leaf newName actualName)
    then show ?thesis using pre fixedDir_cong[OF rename_entry_dirFixed[OF leaf(2)]] by simp
  next
    case (flat newName actualName \<sigma>1)
    then show ?thesis using stored[OF flat(2)] by simp
  next
    case (unread newName actualName \<sigma>1 e)
    then show ?thesis using stored[OF unread(2)] by simp
  next
    case (deep newName actualName \<sigma>1 d)
    let ?\<sigma>2 = "\<sigma>1\<lparr>dirFixed := (dirFixed \<sigma>1)(Join p [] @ sep \<mapsto> Join newName [] @ sep)\<rparr>"
    have g2: "formCode ?\<sigma>2 = g"
      using rename_entry_extends[OF deep(2)] g by (simp add: extends_def)
    show ?thesis
      using keep_frame_entries[of S C n g N, OF _ N deep(5) g2 stored[OF deep(2)]] Suc.IH
      by blast
  qed
qed

lemma entries_reach:
  assumes "process_entries S C n \<sigma> a d = Some (Inr (), \<sigma>')" "c \<in> set d" "I \<sigma>"
      and step: "\<forall>f \<tau> r \<tau>'. f \<in> set d \<longrightarrow> I \<tau> \<longrightarrow> process S C n \<tau> (Join a f) = Some (r, \<tau>') \<longrightarrow> I \<tau>'"
  shows "\<exists>\<tau> \<tau>'. I \<tau> \<and> process S C n \<tau> (Join a c) = Some (Inr (), \<tau>') \<and> extends \<tau>' \<sigma>'"
  using assms
proof (induction d arbitrary: \<sigma>)
  case Nil
  then show ?case by simp
next
  case (Cons f d)
  from Cons.prems(1) obtain r1 \<sigma>1 where p1: "process S C n \<sigma> (Join a f) = Some (r1, \<sigma>1)"
    by (cases "process S C n \<sigma> (Join a f)") auto
  have r1: "r1 = Inr ()" using Cons.prems(1) p1 by (cases r1) auto
  have rest: "process_entries S C n \<sigma>1 a d = Some (Inr (), \<sigma>')"
    using Cons.prems(1) p1 r1 by simp
  show ?case
  proof (cases "c = f")
    case True
    have "extends \<sigma>1 \<sigma>'" using process_entries_extends[OF rest] .
    with Cons.prems(3) p1 r1 True show ?thesis by blast
  next
    case False
    then have c: "c \<in> set d" using Cons.prems(2) by simp
    have I1: "I \<sigma>1" using Cons.prems(3,4) p1 by (meson list.set_intros(1))
    have st: "\<forall>f \<tau> r \<tau>'. f \<in> set d \<longrightarrow> I \<tau> \<longrightarrow>
                process S C n \<tau> (Join a f) = Some (r, \<tau>') \<longrightarrow> I \<tau>'"
      using Cons.prems(4) by (meson list.set_intros(2))
    from Cons.IH[OF rest c I1 st] show ?thesis .
  qed
qed

lemma rename_entry_effects:
  assumes "Split p = (dir, fname)" "normalize S \<sigma> fname \<noteq> fname"
      and "rename_entry S C \<sigma> p = (res, \<sigma>1)"
  shows "out \<sigma>1 = out \<sigma> @ (if quiet C then []
                            else [printed C p (Join (fixedDir \<sigma> dir) (normalize S \<sigma> fname))])"
    and "renameCalls \<sigma>1 = renameCalls \<sigma> @ (if dryrun C then []
                            else [(p, Join (fixedDir \<sigma> dir) (normalize S \<sigma> fname))])"
    and "\<forall>newName actualName. res = Inr (newName, actualName) \<longrightarrow>
            newName = Join (fixedDir \<sigma> dir) (normalize S \<sigma> fname) \<and>
            actualName = (if dryrun C then p else newName)"
  using assms(3) unfolding rename_entry_changed[OF assms(1,2)]
  by (auto simp: Let_def split: if_splits sum.splits)

lemma process_shows_rename:
  assumes "process S C n \<tau> p = Some (Inr (), \<tau>')"
      and "Split p = (dir, fname)" "normalize S \<tau> fname \<noteq> fname"
  shows "(\<not> quiet C \<longrightarrow> printed C p (Join (fixedDir \<tau> dir) (normalize S \<tau> fname))
            \<in> set (drop (length (out \<tau>)) (out \<tau>'))) \<and>
         (\<not> dryrun C \<longrightarrow> (p, Join (fixedDir \<tau> dir) (normalize S \<tau> fname))
            \<in> set (drop (length (renameCalls \<tau>)) (renameCalls \<tau>')))"
proof -
  obtain m where n: "n = Suc m" using assms(1) by (cases n) auto
  have "\<exists>res \<tau>1. rename_entry S C \<tau> p = (res, \<tau>1) \<and> extends \<tau>1 \<tau>'"
    using assms(1)[unfolded n]
  proof (cases rule: process_Suc_cases)
    case (leaf newName actualName)
    then show ?thesis using extends_refl by blast
  next
    case (flat newName actualName \<sigma>1)
    then show ?thesis using store_extends by blast
  next
    case (deep newName actualName \<sigma>1 d)
    have "extends \<sigma>1 (\<sigma>1\<lparr>dirFixed := (dirFixed \<sigma>1)(Join p [] @ sep \<mapsto> Join newName [] @ sep)\<rparr>)"
      by (rule store_extends)
    with process_entries_extends[OF deep(5)] deep(2) show ?thesis
      using extends_trans by blast
  qed simp_all
  then obtain res \<tau>1 where re: "rename_entry S C \<tau> p = (res, \<tau>1)" and ex: "extends \<tau>1 \<tau>'"
    by blast
  from ex obtain xs zs where o: "out \<tau>' = out \<tau>1 @ xs" and c: "renameCalls \<tau>' = renameCalls \<tau>1 @ zs"
    unfolding extends_def by blast
  show ?thesis
    using rename_entry_effects(1,2)[OF assms(2,3) re] o c by simp
qed

lemma between_extends:
  assumes "extends a b" "extends b c" "extends c d"
  shows "x \<in> set (drop (length (out b)) (out c)) \<Longrightarrow> x \<in> set (drop (length (out a)) (out d))"
    and "y \<in> set (drop (length (renameCalls b)) (renameCalls c)) \<Longrightarrow>
         y \<in> set (drop (length (renameCalls a)) (renameCalls d))"
proof -
  from assms obtain xs ys zs where
    "out b = out a @ xs" "out c = out b @ ys" "out d = out c @ zs"
    unfolding extends_def by blast
  then show "x \<in> set (drop (length (out b)) (out c)) \<Longrightarrow> x \<in> set (drop (length (out a)) (out d))"
    by simp
  from assms obtain xs ys zs where
    "renameCalls b = renameCalls a @ xs" "renameCalls c = renameCalls b @ ys"
    "renameCalls d = renameCalls c @ zs"
    unfolding extends_def by blast
  then show "y \<in> set (drop (length (renameCalls b)) (renameCalls c)) \<Longrightarrow>
         y \<in> set (drop (length (renameCalls a)) (renameCalls d))"
    by simp
qed

lemma sample_names:
  "\<forall>w q l. os_ReadDir sample_sys w q = Inr l \<longrightarrow> (\<forall>f\<in>set l. entry_name f)"
  by (auto simp: sample_sys_def sample_ReadDir_def split: if_splits)

section \<open>The claims\<close>

text \<open>
  C1 (defect in the code). The same run over the example tree, once as a dry run and
  once for real. Both print three new paths; the third differs. Below the renamed
  directory the directory \<open>sub\<close> keeps its name, and for the file inside it the dry run
  prints a path under the old name of the top directory, the real run one under the
  new name.
\<close>

theorem dry_run_preview_differs:
  "outcome (run sample_sys (flags True False True False) 3 (start tree ''nfc'') [e_acute_d])
     = Some (Inr (),
             [e_acute_c @ newline,
              e_acute_c @ ''/'' @ e_acute_c @ newline,
              e_acute_d @ ''/sub/'' @ e_acute_c @ newline],
             [], 3, tree) \<and>
   outcome (run sample_sys (flags True False False False) 3 (start tree ''nfc'') [e_acute_d])
     = Some (Inr (),
             [e_acute_c @ newline,
              e_acute_c @ ''/'' @ e_acute_c @ newline,
              e_acute_c @ ''/sub/'' @ e_acute_c @ newline],
             [(e_acute_d, e_acute_c),
              (e_acute_c @ ''/'' @ e_acute_d, e_acute_c @ ''/'' @ e_acute_c),
              (e_acute_c @ ''/sub/'' @ e_acute_d, e_acute_c @ ''/sub/'' @ e_acute_c)],
             3,
             [(''a'', False),
              (e_acute_c, True),
              (e_acute_c @ ''/'' @ e_acute_c, False),
              (e_acute_c @ ''/sub'', True),
              (e_acute_c @ ''/sub/'' @ e_acute_c, False)]) \<and>
   e_acute_d @ ''/sub/'' @ e_acute_c @ newline \<noteq> e_acute_c @ ''/sub/'' @ e_acute_c @ newline"
  by code_simp

text \<open>
  C2. A directory \<open>P\<close> whose leaf name changes is processed with recursion, and one of
  its entries, \<open>c\<close>, changes too. Then the new path computed for \<open>c\<close> is the join of
  the directory's new path (as stored in \<^verbatim>\<open>dirFixed\<close>, with its separator) and the
  normalised name of \<open>c\<close>: that path is printed unless the run is quiet, and is the
  target of the rename unless the run is dry. The entry itself is visited under the
  directory's path on disk, the old one in a dry run and the new one otherwise.

  The filesystem lists entry names only, and the directory's leaf is one. For a real
  run the new leaf is an entry name as well, normalising it again changes nothing, and
  \<^verbatim>\<open>dirFixed\<close> does not already send the directory's new path elsewhere (it cannot,
  in a run that started with the empty map).
\<close>

theorem child_built_on_new_parent:
  assumes names: "\<forall>w q l. os_ReadDir S w q = Inr l \<longrightarrow> (\<forall>f\<in>set l. entry_name f)"
      and leaf: "Split P = (dir, leaf)" "entry_name leaf" "normalize S \<sigma> leaf \<noteq> leaf"
      and isdir: "os_Stat S (fs \<sigma>) P = Inr True"
      and parent: "rename_entry S C \<sigma> P = (Inr (newP, actualP), \<sigma>p)"
      and real: "\<not> dryrun C \<Longrightarrow>
                   entry_name (normalize S \<sigma> leaf) \<and>
                   normalize S \<sigma> (normalize S \<sigma> leaf) = normalize S \<sigma> leaf \<and>
                   fixedDir \<sigma> (Join newP [] @ sep) = Join newP [] @ sep"
      and rec: "recurse C"
      and listed: "os_ReadDir S (fs \<sigma>p) actualP = Inr d" "c \<in> set d" "normalize S \<sigma> c \<noteq> c"
      and finished: "process S C (Suc n) \<sigma> P = Some (Inr (), \<sigma>')"
  shows "newP = Join (fixedDir \<sigma> dir) (normalize S \<sigma> leaf) \<and>
         actualP = (if dryrun C then P else newP) \<and>
         (\<not> quiet C \<longrightarrow>
            printed C (Join actualP c) (Join (Join newP [] @ sep) (normalize S \<sigma> c))
              \<in> set (drop (length (out \<sigma>p)) (out \<sigma>'))) \<and>
         (\<not> dryrun C \<longrightarrow>
            (Join actualP c, Join (Join newP [] @ sep) (normalize S \<sigma> c))
              \<in> set (drop (length (renameCalls \<sigma>p)) (renameCalls \<sigma>')))"
proof -
  let ?K = "Join P [] @ sep"
  let ?V = "Join newP [] @ sep"
  let ?\<sigma>2 = "\<sigma>p\<lparr>dirFixed := (dirFixed \<sigma>p)(?K \<mapsto> ?V)\<rparr>"
  let ?X = "Join actualP c"
  have np: "newP = Join (fixedDir \<sigma> dir) (normalize S \<sigma> leaf)"
    and ap: "actualP = (if dryrun C then P else newP)"
    using rename_entry_effects(3)[OF leaf(1,3) parent] by simp_all
  have ex0: "extends \<sigma> \<sigma>p" by (rule rename_entry_extends[OF parent])
  have ex1: "extends \<sigma>p ?\<sigma>2" by (rule store_extends)
  have dfp: "dirFixed \<sigma>p = dirFixed \<sigma>" by (rule rename_entry_dirFixed[OF parent])
  have loop: "process_entries S C n ?\<sigma>2 actualP d = Some (Inr (), \<sigma>')"
    using finished
  proof (cases rule: process_Suc_cases)
    case (deep newName actualName \<sigma>1 d')
    with parent listed(1) show ?thesis by simp
  qed (use isdir parent rec listed(1) in auto)
  have cname: "entry_name c" using names listed(1,2) by blast
  have V: "?V \<noteq> []" by (simp add: sep_def)
  have A: "actualP \<noteq> [] \<and> kept actualP \<noteq> []"
  proof (cases "dryrun C")
    case True
    then show ?thesis using ap kept_leaf[OF leaf(1,2)] by simp
  next
    case False
    with real have "entry_name (normalize S \<sigma> leaf)" by simp
    from Join_name[OF this, of "fixedDir \<sigma> dir"] show ?thesis using ap np False by simp
  qed
  have sx: "Split ?X = (Join actualP [] @ sep, c)"
    using Split_child[OF cname] A by simp
  have jx: "Join actualP f = Join actualP [] @ sep @ f" if "entry_name f" for f
    using Join_child[OF that] A by simp
  define I where "I = (\<lambda>\<tau>. fixedDir \<tau> (Join actualP [] @ sep) = ?V \<and> extends ?\<sigma>2 \<tau>)"
  have init: "I ?\<sigma>2"
  proof (cases "dryrun C")
    case True
    then show ?thesis
      using ap by (simp add: I_def fixedDir_store extends_refl sep_def)
  next
    case False
    then have "Join actualP [] = Join newP []" using ap by simp
    moreover have "fixedDir \<sigma>p ?V = ?V"
      using real[OF False] fixedDir_cong[OF dfp] by simp
    ultimately show ?thesis
      by (simp add: I_def fixedDir_store extends_refl sep_def)
  qed
  have step: "\<forall>f \<tau> r \<tau>'. f \<in> set d \<longrightarrow> I \<tau> \<longrightarrow>
                process S C n \<tau> (Join actualP f) = Some (r, \<tau>') \<longrightarrow> I \<tau>'"
  proof (intro allI impI)
    fix f \<tau> r \<tau>'
    assume f: "f \<in> set d" and I: "I \<tau>"
      and pr: "process S C n \<tau> (Join actualP f) = Some (r, \<tau>')"
    have fname: "entry_name f" using names listed(1) f by blast
    have ex: "extends ?\<sigma>2 \<tau>'"
      using I process_extends[OF pr] extends_trans unfolding I_def by blast
    have "fixedDir \<tau>' (Join actualP [] @ sep) = ?V"
    proof (cases "dryrun C")
      case True
      have "Join (Join actualP f) [] = Join actualP [] @ sep @ f"
        using Join_Join_empty[of actualP f] jx[OF fname] by simp
      moreover have "1 \<le> length f"
        using fname by (cases f) (simp_all add: entry_name_def)
      ultimately have "length (Join actualP [] @ sep) \<le> length (Join (Join actualP f) [])"
        by (simp add: sep_def)
      from dry_frame[OF True names pr this] have "dirFixed \<tau>' (Join actualP [] @ sep)
          = dirFixed \<tau> (Join actualP [] @ sep)" .
      then show ?thesis using I by (simp add: I_def fixedDir_def)
    next
      case False
      note r = real[OF False]
      have a: "Join actualP [] = Join newP []" using ap False by simp
      have nn: "Join newP [] = newP" unfolding np by (rule Join_Join_empty)
      have "snd (Split newP) = normalize S \<sigma> leaf"
        unfolding np using Join_name[of "normalize S \<sigma> leaf" "fixedDir \<sigma> dir"] r by simp
      then have N: "norm_String S (formCode \<sigma>) (snd (Split (Join newP []))) = snd (Split (Join newP []))"
        using r nn by (simp add: normalize_def)
      have g: "formCode \<tau> = formCode \<sigma>"
        using I ex0 ex1 unfolding I_def extends_def by simp
      have cond: "Join (Join actualP f) [] = Join newP [] \<longrightarrow>
                  norm_String S (formCode \<sigma>) (snd (Split (Join actualP f))) = snd (Split (Join actualP f))"
        using N by (simp add: Join_Join_empty)
      have "fixedDir \<tau> (Join newP [] @ sep) = Join newP [] @ sep"
        using I a by (simp add: I_def)
      from keep_frame[OF N pr g cond this] show ?thesis using a by simp
    qed
    with ex show "I \<tau>'" by (simp add: I_def)
  qed
  from entries_reach[of S C n ?\<sigma>2 actualP d \<sigma>' c I, OF loop listed(2) init step]
  obtain \<tau> \<tau>' where I: "I \<tau>" and pr: "process S C n \<tau> ?X = Some (Inr (), \<tau>')"
    and ex3: "extends \<tau>' \<sigma>'"
    by blast
  have ex2: "extends \<sigma>p \<tau>" using I ex1 extends_trans unfolding I_def by blast
  have nf: "normalize S \<tau> = normalize S \<sigma>"
    using normalize_extends[OF ex2] normalize_extends[OF ex0] by simp
  have fd: "fixedDir \<tau> (Join actualP [] @ sep) = ?V" using I by (simp add: I_def)
  have ch: "normalize S \<tau> c \<noteq> c" using listed(3) nf by simp
  note shown = process_shows_rename[OF pr sx ch, unfolded fd nf]
  have exm: "extends \<tau> \<tau>'" by (rule process_extends[OF pr])
  have 1: "\<not> quiet C \<longrightarrow>
            printed C ?X (Join ?V (normalize S \<sigma> c)) \<in> set (drop (length (out \<sigma>p)) (out \<sigma>'))"
    using shown between_extends(1)[OF ex2 exm ex3] by blast
  have 2: "\<not> dryrun C \<longrightarrow>
            (?X, Join ?V (normalize S \<sigma> c)) \<in> set (drop (length (renameCalls \<sigma>p)) (renameCalls \<sigma>'))"
    using shown between_extends(2)[OF ex2 exm ex3] by blast
  show ?thesis using np ap 1 2 by blast
qed

text \<open>
  The top directory of the example tree and the file of the same name inside it, in a
  dry run and in a real one.
\<close>

theorem child_built_on_new_parent_witness:
  "Split e_acute_d = ([], e_acute_d) \<and> entry_name e_acute_d \<and>
   normalize sample_sys (start tree ''NFC'') e_acute_d = e_acute_c \<and> e_acute_c \<noteq> e_acute_d \<and>
   entry_name e_acute_c \<and> normalize sample_sys (start tree ''NFC'') e_acute_c = e_acute_c \<and>
   os_Stat sample_sys (fs (start tree ''NFC'')) e_acute_d = Inr True \<and>
   os_ReadDir sample_sys tree e_acute_d = Inr [e_acute_d, ''sub''] \<and>
   (\<exists>\<sigma>'. process sample_sys (flags True False True False) (Suc (Suc (Suc 0))) (start tree ''NFC'') e_acute_d
            = Some (Inr (), \<sigma>') \<and>
         printed (flags True False True False) (e_acute_d @ ''/'' @ e_acute_d)
             (e_acute_c @ ''/'' @ e_acute_c)
           \<in> set (drop 1 (out \<sigma>'))) \<and>
   (\<exists>\<sigma>'. process sample_sys (flags True False False False) (Suc (Suc (Suc 0))) (start tree ''NFC'') e_acute_d
            = Some (Inr (), \<sigma>') \<and>
         printed (flags True False False False) (e_acute_c @ ''/'' @ e_acute_d)
             (e_acute_c @ ''/'' @ e_acute_c)
           \<in> set (drop 1 (out \<sigma>')) \<and>
         (e_acute_c @ ''/'' @ e_acute_d, e_acute_c @ ''/'' @ e_acute_c)
           \<in> set (drop 1 (renameCalls \<sigma>')))"
proof -
  let ?\<sigma> = "start tree ''NFC'' :: sample_fs state"
  let ?dry = "flags True False True False"
  let ?real = "flags True False False False"
  let ?tree' = "[(''a'', False), (e_acute_c, True), (e_acute_c @ ''/'' @ e_acute_d, False),
                 (e_acute_c @ ''/sub'', True), (e_acute_c @ ''/sub/'' @ e_acute_d, False)]"
  have sp: "Split e_acute_d = ([], e_acute_d)"
    by code_simp
  have en: "entry_name e_acute_d" "entry_name e_acute_c"
    by code_simp+
  have nf: "normalize sample_sys ?\<sigma> e_acute_d = e_acute_c"
    "normalize sample_sys ?\<sigma> e_acute_c = e_acute_c"
    by (simp_all add: normalize_def start_def) code_simp+
  have ne: "e_acute_c \<noteq> e_acute_d"
    by code_simp
  have ch: "normalize sample_sys ?\<sigma> e_acute_d \<noteq> e_acute_d"
    using nf ne by simp
  have st: "os_Stat sample_sys (fs ?\<sigma>) e_acute_d = Inr True"
    by code_simp
  have fd: "fixedDir ?\<sigma> [] = []" "fixedDir ?\<sigma> (e_acute_c @ ''/'') = e_acute_c @ ''/''"
    by (simp_all add: fixedDir_def start_def)
  have j: "Join [] e_acute_c = e_acute_c" "Join e_acute_c [] = e_acute_c"
    "Join e_acute_d e_acute_d = e_acute_d @ ''/'' @ e_acute_d"
    "Join e_acute_c e_acute_d = e_acute_c @ ''/'' @ e_acute_d"
    "Join (e_acute_c @ ''/'') e_acute_c = e_acute_c @ ''/'' @ e_acute_c"
    by code_simp+
  have flags: "dryrun ?dry" "recurse ?dry" "\<not> quiet ?dry" "\<not> dryrun ?real" "recurse ?real"
    "\<not> quiet ?real"
    by (simp_all add: flags_def)
  have fs: "fs ?\<sigma> = tree" "out ?\<sigma> = []" "renameCalls ?\<sigma> = []"
    by (simp_all add: start_def)

  text \<open>The dry run.\<close>
  let ?d1 = "?\<sigma>\<lparr>fileCount := fileCount ?\<sigma> + 1,
                 out := out ?\<sigma> @ [printed ?dry e_acute_d e_acute_c]\<rparr>"
  have pd: "rename_entry sample_sys ?dry ?\<sigma> e_acute_d = (Inr (e_acute_c, e_acute_d), ?d1)"
    unfolding rename_entry_changed[OF sp ch] using flags nf fd j by (simp add: Let_def)
  have ld: "os_ReadDir sample_sys (fs ?d1) e_acute_d = Inr [e_acute_d, ''sub'']"
    unfolding fs state.simps by code_simp
  have "outcome (process sample_sys ?dry (Suc (Suc (Suc 0))) ?\<sigma> e_acute_d)
          = Some (Inr (),
                  [e_acute_c @ newline, e_acute_c @ ''/'' @ e_acute_c @ newline,
                   e_acute_d @ ''/sub/'' @ e_acute_c @ newline],
                  [], 3, tree)"
    by code_simp
  then obtain \<sigma>d where
    rd: "process sample_sys ?dry (Suc (Suc (Suc 0))) ?\<sigma> e_acute_d = Some (Inr (), \<sigma>d)"
    by (auto simp: outcome_def)
  have dry: "printed ?dry (e_acute_d @ ''/'' @ e_acute_d) (e_acute_c @ ''/'' @ e_acute_c)
               \<in> set (drop 1 (out \<sigma>d))"
    using child_built_on_new_parent[OF sample_names sp en(1) ch st pd _ flags(2) ld _ _ rd,
            of e_acute_d]
      flags nf ne j fs
    by (simp add: sep_def)

  text \<open>The real run.\<close>
  let ?r1 = "?\<sigma>\<lparr>fileCount := fileCount ?\<sigma> + 1,
                 out := out ?\<sigma> @ [printed ?real e_acute_d e_acute_c],
                 renameCalls := renameCalls ?\<sigma> @ [(e_acute_d, e_acute_c)],
                 fs := ?tree'\<rparr>"
  have rn: "os_Rename sample_sys (fs ?\<sigma>) e_acute_d e_acute_c = Inr ?tree'"
    by code_simp
  have pr: "rename_entry sample_sys ?real ?\<sigma> e_acute_d = (Inr (e_acute_c, e_acute_c), ?r1)"
    unfolding rename_entry_changed[OF sp ch] using flags nf fd j rn by (simp add: Let_def)
  have lr: "os_ReadDir sample_sys (fs ?r1) e_acute_c = Inr [e_acute_d, ''sub'']"
    unfolding state.simps by code_simp
  have stable: "\<not> dryrun ?real \<Longrightarrow>
      entry_name (normalize sample_sys ?\<sigma> e_acute_d) \<and>
      normalize sample_sys ?\<sigma> (normalize sample_sys ?\<sigma> e_acute_d)
        = normalize sample_sys ?\<sigma> e_acute_d \<and>
      fixedDir ?\<sigma> (Join e_acute_c [] @ sep) = Join e_acute_c [] @ sep"
    using nf en fd j by (simp add: sep_def)
  have "outcome (process sample_sys ?real (Suc (Suc (Suc 0))) ?\<sigma> e_acute_d)
          = Some (Inr (),
                  [e_acute_c @ newline, e_acute_c @ ''/'' @ e_acute_c @ newline,
                   e_acute_c @ ''/sub/'' @ e_acute_c @ newline],
                  [(e_acute_d, e_acute_c),
                   (e_acute_c @ ''/'' @ e_acute_d, e_acute_c @ ''/'' @ e_acute_c),
                   (e_acute_c @ ''/sub/'' @ e_acute_d, e_acute_c @ ''/sub/'' @ e_acute_c)],
                  3,
                  [(''a'', False), (e_acute_c, True), (e_acute_c @ ''/'' @ e_acute_c, False),
                   (e_acute_c @ ''/sub'', True), (e_acute_c @ ''/sub/'' @ e_acute_c, False)])"
    by code_simp
  then obtain \<sigma>r where
    rr: "process sample_sys ?real (Suc (Suc (Suc 0))) ?\<sigma> e_acute_d = Some (Inr (), \<sigma>r)"
    by (auto simp: outcome_def)
  have real: "printed ?real (e_acute_c @ ''/'' @ e_acute_d) (e_acute_c @ ''/'' @ e_acute_c)
               \<in> set (drop 1 (out \<sigma>r)) \<and>
             (e_acute_c @ ''/'' @ e_acute_d, e_acute_c @ ''/'' @ e_acute_c)
               \<in> set (drop 1 (renameCalls \<sigma>r))"
    using child_built_on_new_parent[OF sample_names sp en(1) ch st pr stable flags(5) lr _ _ rr,
            of e_acute_d]
      flags nf ne j fs
    by (simp add: sep_def)
  have ls: "os_ReadDir sample_sys tree e_acute_d = Inr [e_acute_d, ''sub'']"
    by code_simp
  show ?thesis
    using sp en nf ne st ls rd dry rr real by blast
qed

text \<open>
  C3 (corrected). \<^verbatim>\<open>dirFixed\<close> gains an entry for every directory \<^verbatim>\<open>process\<close>
  gets past the rename of, whether or not its leaf name changes. For a directory whose
  leaf name is already in the target form the entry maps the cleaned path with its
  separator to itself; without recursion that entry is all that changes.
\<close>

theorem every_directory_recorded:
  assumes "os_Stat S (fs \<sigma>) p = Inr True"
      and "rename_entry S C \<sigma> p = (Inr (newName, actualName), \<sigma>1)"
      and "process S C (Suc n) \<sigma> p = Some (r, \<sigma>')"
  shows "dirFixed \<sigma>' (Join p [] @ sep) \<noteq> None \<and>
         (normalize S \<sigma> (snd (Split p)) = snd (Split p) \<longrightarrow>
            Join newName [] @ sep = Join p [] @ sep \<and>
            (\<not> recurse C \<longrightarrow>
               \<sigma>' = \<sigma>\<lparr>dirFixed := (dirFixed \<sigma>)(Join p [] @ sep \<mapsto> Join p [] @ sep)\<rparr>))"
proof -
  let ?k = "Join p [] @ sep"
  let ?\<sigma>2 = "\<sigma>1\<lparr>dirFixed := (dirFixed \<sigma>1)(?k \<mapsto> Join newName [] @ sep)\<rparr>"
  have rec: "dirFixed \<sigma>' ?k \<noteq> None"
    using assms(3)
  proof (cases rule: process_Suc_cases)
    case (deep newName' actualName' \<sigma>1' d)
    with assms(2) have "process_entries S C n ?\<sigma>2 actualName d = Some (r, \<sigma>')" by simp
    from process_entries_extends[OF this] have "dom (dirFixed ?\<sigma>2) \<subseteq> dom (dirFixed \<sigma>')"
      by (simp add: extends_def)
    then show ?thesis by auto
  qed (use assms(1,2) in auto)
  have same: "Join newName [] @ sep = ?k \<and>
      (\<not> recurse C \<longrightarrow> \<sigma>' = \<sigma>\<lparr>dirFixed := (dirFixed \<sigma>)(?k \<mapsto> ?k)\<rparr>)"
    if leaf: "normalize S \<sigma> (snd (Split p)) = snd (Split p)"
  proof -
    have "newName = Join p []" "\<sigma>1 = \<sigma>"
      using rename_entry_unchanged[OF leaf, of C] assms(2) by simp_all
    then show ?thesis
      using assms(1,3) unfolding process_unchanged[OF leaf]
      by (auto simp: Join_Join_empty)
  qed
  show ?thesis using rec same by blast
qed

text \<open>The directory \<open>sub\<close> of the example tree, whose name does not change.\<close>

theorem every_directory_recorded_witness:
  "os_Stat sample_sys (fs (start tree ''NFC'')) (e_acute_d @ ''/sub'') = Inr True \<and>
   rename_entry sample_sys (flags False False False False) (start tree ''NFC'') (e_acute_d @ ''/sub'')
     = (Inr (e_acute_d @ ''/sub'', e_acute_d @ ''/sub''), start tree ''NFC'') \<and>
   process sample_sys (flags False False False False) (Suc 0) (start tree ''NFC'') (e_acute_d @ ''/sub'')
     = Some (Inr (), (start tree ''NFC'')\<lparr>dirFixed := [e_acute_d @ ''/sub/'' \<mapsto> e_acute_d @ ''/sub/'']\<rparr>) \<and>
   dirFixed ((start tree ''NFC'')\<lparr>dirFixed := [e_acute_d @ ''/sub/'' \<mapsto> e_acute_d @ ''/sub/'']\<rparr>)
       (Join (e_acute_d @ ''/sub'') [] @ sep) \<noteq> None"
proof -
  let ?p = "e_acute_d @ ''/sub''"
  let ?C = "flags False False False False"
  let ?\<sigma> = "start tree ''NFC'' :: sample_fs state"
  have st: "os_Stat sample_sys (fs ?\<sigma>) ?p = Inr True"
    by code_simp
  have leaf: "normalize sample_sys ?\<sigma> (snd (Split ?p)) = snd (Split ?p)"
    by code_simp
  have j: "Join ?p [] = ?p"
    by code_simp
  have re: "rename_entry sample_sys ?C ?\<sigma> ?p = (Inr (?p, ?p), ?\<sigma>)"
    using rename_entry_unchanged[OF leaf] j by simp
  have pr: "process sample_sys ?C (Suc 0) ?\<sigma> ?p
              = Some (Inr (), ?\<sigma>\<lparr>dirFixed := (dirFixed ?\<sigma>)(?p @ ''/'' \<mapsto> ?p @ ''/'')\<rparr>)"
    unfolding process_unchanged[OF leaf] using st j by (simp add: flags_def sep_def)
  have m: "dirFixed ?\<sigma> = Map.empty"
    by (simp add: start_def)
  show ?thesis
    using st re pr every_directory_recorded[OF st re pr] leaf j m by (simp add: sep_def)
qed

text \<open>
  The claim as stated fails there: the name \<open>sub\<close> is in the target form, the map
  had no entry for the directory, and has one afterwards.
\<close>

theorem unchanged_directory_recorded_counterexample:
  "normalize sample_sys (start tree ''NFC'') (snd (Split (e_acute_d @ ''/sub'')))
     = snd (Split (e_acute_d @ ''/sub'')) \<and>
   os_Stat sample_sys (fs (start tree ''NFC'')) (e_acute_d @ ''/sub'') = Inr True \<and>
   dirFixed (start tree ''NFC'') (e_acute_d @ ''/sub/'') = None \<and>
   process sample_sys (flags False False False False) (Suc 0) (start tree ''NFC'') (e_acute_d @ ''/sub'')
     = Some (Inr (), (start tree ''NFC'')\<lparr>dirFixed := [e_acute_d @ ''/sub/'' \<mapsto> e_acute_d @ ''/sub/'']\<rparr>) \<and>
   dirFixed ((start tree ''NFC'')\<lparr>dirFixed := [e_acute_d @ ''/sub/'' \<mapsto> e_acute_d @ ''/sub/'']\<rparr>)
       (e_acute_d @ ''/sub/'') = Some (e_acute_d @ ''/sub/'')"
proof -
  let ?p = "e_acute_d @ ''/sub''"
  let ?C = "flags False False False False"
  let ?\<sigma> = "start tree ''NFC'' :: sample_fs state"
  have st: "os_Stat sample_sys (fs ?\<sigma>) ?p = Inr True"
    by code_simp
  have leaf: "normalize sample_sys ?\<sigma> (snd (Split ?p)) = snd (Split ?p)"
    by code_simp
  have j: "Join ?p [] = ?p"
    by code_simp
  have pr: "process sample_sys ?C (Suc 0) ?\<sigma> ?p
              = Some (Inr (), ?\<sigma>\<lparr>dirFixed := (dirFixed ?\<sigma>)(?p @ ''/'' \<mapsto> ?p @ ''/'')\<rparr>)"
    unfolding process_unchanged[OF leaf] using st j by (simp add: flags_def sep_def)
  have m: "dirFixed ?\<sigma> = Map.empty"
    by (simp add: start_def)
  show ?thesis
    using st leaf pr m by simp
qed

text \<open>
  C5 (corrected). For a path whose leaf name is already in the configured form,
  \<^verbatim>\<open>process\<close> does nothing to the entry: no rename, nothing printed, the counter
  unchanged, and the entry stays under the original path. The new path it holds is the
  original path cleaned by \<^verbatim>\<open>filepath.Clean\<close>. All that happens is that a directory is
  recorded in \<^verbatim>\<open>dirFixed\<close>, mapped to itself, before its entries are visited.
\<close>

theorem normalized_leaf_untouched:
  assumes "normalize S \<sigma> (snd (Split p)) = snd (Split p)"
  shows "rename_entry S C \<sigma> p = (Inr (if p = [] then [] else Clean p, p), \<sigma>) \<and>
         process S C (Suc n) \<sigma> p =
           (case os_Stat S (fs \<sigma>) p of
              Inl err \<Rightarrow> Some (Inl err, \<sigma>)
            | Inr isDir \<Rightarrow>
                if isDir then
                  (if recurse C then
                     (case os_ReadDir S (fs \<sigma>) p of
                        Inl e \<Rightarrow> Some (Inl e,
                          \<sigma>\<lparr>dirFixed := (dirFixed \<sigma>)(Join p [] @ sep \<mapsto> Join p [] @ sep)\<rparr>)
                      | Inr d \<Rightarrow> process_entries S C n
                          (\<sigma>\<lparr>dirFixed := (dirFixed \<sigma>)(Join p [] @ sep \<mapsto> Join p [] @ sep)\<rparr>) p d)
                   else Some (Inr (),
                          \<sigma>\<lparr>dirFixed := (dirFixed \<sigma>)(Join p [] @ sep \<mapsto> Join p [] @ sep)\<rparr>))
                else Some (Inr (), \<sigma>))"
  using rename_entry_unchanged[OF assms] process_unchanged[OF assms]
  by (simp add: Join_empty)

text \<open>The file \<open>a\<close> of the example tree, in composed form already.\<close>

theorem normalized_leaf_untouched_witness:
  "normalize sample_sys (start tree ''NFC'') (snd (Split ''a'')) = snd (Split ''a'') \<and>
   rename_entry sample_sys (flags True False False False) (start tree ''NFC'') ''a''
     = (Inr (''a'', ''a''), start tree ''NFC'') \<and>
   process sample_sys (flags True False False False) (Suc 0) (start tree ''NFC'') ''a''
     = Some (Inr (), start tree ''NFC'')"
proof -
  have h: "normalize sample_sys (start tree ''NFC'') (snd (Split ''a'')) = snd (Split ''a'')"
    by code_simp
  have c: "Clean ''a'' = ''a''"
    by code_simp
  have st: "os_Stat sample_sys (fs (start tree ''NFC'')) ''a'' = Inr False"
    by code_simp
  show ?thesis
    using h normalized_leaf_untouched[OF h, of "flags True False False False" 0] c st
    by simp
qed

text \<open>
  The claim as stated fails where the path is not clean: for the argument \<open>./a\<close> the
  new path is \<open>a\<close>, not the original path.
\<close>

theorem new_path_is_cleaned_counterexample:
  "normalize sample_sys (start tree ''NFC'') (snd (Split ''./a'')) = snd (Split ''./a'') \<and>
   os_Stat sample_sys (fs (start tree ''NFC'')) ''./a'' = Inr False \<and>
   rename_entry sample_sys (flags False False False False) (start tree ''NFC'') ''./a''
     = (Inr (''a'', ''./a''), start tree ''NFC'') \<and>
   ''a'' \<noteq> ''./a''"
proof -
  have h: "normalize sample_sys (start tree ''NFC'') (snd (Split ''./a'')) = snd (Split ''./a'')"
    by code_simp
  have c: "Join ''./a'' [] = ''a''"
    by code_simp
  have st: "os_Stat sample_sys (fs (start tree ''NFC'')) ''./a'' = Inr False"
    by code_simp
  show ?thesis
    using h rename_entry_unchanged[OF h] c st by simp
qed

text \<open>
  C10. A path that ends in a separator has the empty leaf. When the empty string
  normalises to itself, \<^verbatim>\<open>process\<close> does not rename the entry, print, or count it,
  whatever the directory's own name is; without recursion nothing but \<^verbatim>\<open>dirFixed\<close>
  changes.
\<close>

theorem trailing_separator_not_renamed:
  assumes "normalize S \<sigma> [] = []"
  shows "Split (q @ sep) = (q @ sep, []) \<and>
         rename_entry S C \<sigma> (q @ sep) = (Inr (Clean (q @ sep), q @ sep), \<sigma>) \<and>
         (\<not> recurse C \<longrightarrow> process S C (Suc n) \<sigma> (q @ sep) = Some (r, \<sigma>') \<longrightarrow>
            fs \<sigma>' = fs \<sigma> \<and> fileCount \<sigma>' = fileCount \<sigma> \<and> out \<sigma>' = out \<sigma>
            \<and> renameCalls \<sigma>' = renameCalls \<sigma>)"
proof -
  have leaf: "normalize S \<sigma> (snd (Split (q @ sep))) = snd (Split (q @ sep))"
    using assms by (simp add: Split_trailing)
  have ne: "q @ sep \<noteq> []" by (simp add: sep_def)
  have 1: "rename_entry S C \<sigma> (q @ sep) = (Inr (Clean (q @ sep), q @ sep), \<sigma>)"
    using rename_entry_unchanged[OF leaf] by (simp add: Join_empty sep_def)
  have 2: "\<not> recurse C \<longrightarrow> process S C (Suc n) \<sigma> (q @ sep) = Some (r, \<sigma>') \<longrightarrow>
            fs \<sigma>' = fs \<sigma> \<and> fileCount \<sigma>' = fileCount \<sigma> \<and> out \<sigma>' = out \<sigma>
            \<and> renameCalls \<sigma>' = renameCalls \<sigma>"
    unfolding process_unchanged[OF leaf]
    by (auto split: sum.splits if_splits)
  show ?thesis using 1 2 Split_trailing by blast
qed

text \<open>The directory of the example tree, named in decomposed form, given as \<open>name/\<close>.\<close>

theorem trailing_separator_not_renamed_witness:
  "normalize sample_sys (start tree ''NFC'') [] = [] \<and>
   normalize sample_sys (start tree ''NFC'') e_acute_d \<noteq> e_acute_d \<and>
   Split (e_acute_d @ sep) = (e_acute_d @ sep, []) \<and>
   rename_entry sample_sys (flags False False False False) (start tree ''NFC'') (e_acute_d @ sep)
     = (Inr (Clean (e_acute_d @ sep), e_acute_d @ sep), start tree ''NFC'') \<and>
   outcome (process sample_sys (flags False False False False) (Suc 0) (start tree ''NFC'')
              (e_acute_d @ sep))
     = Some (Inr (), [], [], 0, tree)"
proof -
  have h: "normalize sample_sys (start tree ''NFC'') [] = []"
    by code_simp
  have d: "normalize sample_sys (start tree ''NFC'') e_acute_d \<noteq> e_acute_d"
    by code_simp
  have run: "outcome (process sample_sys (flags False False False False) (Suc 0)
                (start tree ''NFC'') (e_acute_d @ sep)) = Some (Inr (), [], [], 0, tree)"
    by code_simp
  show ?thesis
    using h d run
      trailing_separator_not_renamed[OF h, of e_acute_d "flags False False False False"]
    by simp
qed

text \<open>
  C4. When the parent directory is not a key of \<^verbatim>\<open>dirFixed\<close>, the new path of an
  entry whose leaf changes is built on the parent directory as \<^verbatim>\<open>Split\<close> gave it:
  this path is printed, passed to \<^verbatim>\<open>os.Rename\<close> and kept as the new name.
\<close>

theorem miss_keeps_parent_directory:
  assumes "Split p = (dir, fname)" "normalize S \<sigma> fname \<noteq> fname" "dirFixed \<sigma> dir = None"
  shows "rename_entry S C \<sigma> p =
     (let newName = Join dir (normalize S \<sigma> fname);
          \<sigma>2 = \<sigma>\<lparr>fileCount := fileCount \<sigma> + 1,
                  out := out \<sigma> @ (if quiet C then [] else [printed C p newName])\<rparr>
      in if dryrun C then (Inr (newName, p), \<sigma>2)
         else (case os_Rename S (fs \<sigma>) p newName of
                 Inl err \<Rightarrow> (Inl err, \<sigma>2\<lparr>renameCalls := renameCalls \<sigma> @ [(p, newName)]\<rparr>)
               | Inr w \<Rightarrow> (Inr (newName, newName),
                           \<sigma>2\<lparr>renameCalls := renameCalls \<sigma> @ [(p, newName)], fs := w\<rparr>)))"
  using assms by (simp add: rename_entry_def Let_def split: sum.splits)

text \<open>The file inside the example directory, before anything is recorded.\<close>

theorem miss_keeps_parent_directory_witness:
  "Split (e_acute_d @ ''/'' @ e_acute_d) = (e_acute_d @ ''/'', e_acute_d) \<and>
   normalize sample_sys (start tree ''NFC'') e_acute_d \<noteq> e_acute_d \<and>
   dirFixed (start tree ''NFC'') (e_acute_d @ ''/'') = None \<and>
   rename_entry sample_sys (flags False False True False) (start tree ''NFC'')
       (e_acute_d @ ''/'' @ e_acute_d)
     = (Inr (e_acute_d @ ''/'' @ e_acute_c, e_acute_d @ ''/'' @ e_acute_d),
        (start tree ''NFC'')\<lparr>fileCount := 1, out := [e_acute_d @ ''/'' @ e_acute_c @ newline]\<rparr>)"
proof -
  have s: "Split (e_acute_d @ ''/'' @ e_acute_d) = (e_acute_d @ ''/'', e_acute_d)"
    by code_simp
  have d: "normalize sample_sys (start tree ''NFC'') e_acute_d \<noteq> e_acute_d"
    by code_simp
  have m: "dirFixed (start tree ''NFC'') (e_acute_d @ ''/'') = None"
    by (simp add: start_def)
  have j: "Join (e_acute_d @ ''/'') (normalize sample_sys (start tree ''NFC'') e_acute_d)
             = e_acute_d @ ''/'' @ e_acute_c"
    by code_simp
  show ?thesis
    using s d m miss_keeps_parent_directory[OF s d m, of "flags False False True False"] j
    by (simp add: flags_def start_def printed_def Let_def)
qed

text \<open>
  C6. The first error ends the run. An error of \<^verbatim>\<open>os.Stat\<close>, \<^verbatim>\<open>os.Rename\<close> or
  \<^verbatim>\<open>os.ReadDir\<close> is what \<^verbatim>\<open>process\<close> returns, with nothing done after it; what the
  loop over a directory's entries returns is what \<^verbatim>\<open>process\<close> returns for the
  directory; and an entry, a path or a pattern that fails ends its loop with that error
  and that state, whatever entries, paths or patterns were still to come.
\<close>

theorem first_error_ends_run:
  "(os_Stat S (fs \<sigma>) p = Inl e \<longrightarrow> process S C (Suc n) \<sigma> p = Some (Inl e, \<sigma>)) \<and>
   (os_Stat S (fs \<sigma>) p = Inr isDir \<longrightarrow> Split p = (dir, fname) \<longrightarrow>
      normalize S \<sigma> fname \<noteq> fname \<longrightarrow> \<not> dryrun C \<longrightarrow>
      os_Rename S (fs \<sigma>) p (Join (fixedDir \<sigma> dir) (normalize S \<sigma> fname)) = Inl e \<longrightarrow>
      process S C (Suc n) \<sigma> p =
        Some (Inl e,
              \<sigma>\<lparr>fileCount := fileCount \<sigma> + 1,
                out := out \<sigma> @ (if quiet C then []
                       else [printed C p (Join (fixedDir \<sigma> dir) (normalize S \<sigma> fname))]),
                renameCalls := renameCalls \<sigma>
                       @ [(p, Join (fixedDir \<sigma> dir) (normalize S \<sigma> fname))]\<rparr>)) \<and>
   (os_Stat S (fs \<sigma>) p = Inr True \<longrightarrow> recurse C \<longrightarrow>
      rename_entry S C \<sigma> p = (Inr (newName, actualName), \<sigma>r) \<longrightarrow>
      os_ReadDir S (fs \<sigma>r) actualName = Inl e \<longrightarrow>
      process S C (Suc n) \<sigma> p =
        Some (Inl e, \<sigma>r\<lparr>dirFixed := (dirFixed \<sigma>r)(Join p [] @ sep \<mapsto> Join newName [] @ sep)\<rparr>)) \<and>
   (os_Stat S (fs \<sigma>) p = Inr True \<longrightarrow> recurse C \<longrightarrow>
      rename_entry S C \<sigma> p = (Inr (newName, actualName), \<sigma>r) \<longrightarrow>
      os_ReadDir S (fs \<sigma>r) actualName = Inr d \<longrightarrow>
      process S C (Suc n) \<sigma> p =
        process_entries S C n
          (\<sigma>r\<lparr>dirFixed := (dirFixed \<sigma>r)(Join p [] @ sep \<mapsto> Join newName [] @ sep)\<rparr>)
          actualName d) \<and>
   (process_entries S C n \<sigma> a xs = Some (Inr (), \<tau>p) \<longrightarrow>
      process S C n \<tau>p (Join a f) = Some (Inl e, \<tau>) \<longrightarrow>
      process_entries S C n \<sigma> a (xs @ f # ys) = Some (Inl e, \<tau>)) \<and>
   (process_names S C n \<sigma> xs = Some (Inr (), \<tau>p) \<longrightarrow>
      process S C n \<tau>p name = Some (Inl e, \<tau>) \<longrightarrow>
      process_names S C n \<sigma> (xs @ name # ys) = Some (Inl e, \<tau>)) \<and>
   (filepath_Glob S (fs \<sigma>) pattern = Inr l \<longrightarrow>
      process_names S C n \<sigma> l = Some (Inl e, \<tau>) \<longrightarrow>
      run_patterns S C n \<sigma> (pattern # args) = Some (Inl e, \<tau>))"
proof -
  have 1: "os_Stat S (fs \<sigma>) p = Inl e \<longrightarrow> process S C (Suc n) \<sigma> p = Some (Inl e, \<sigma>)"
    by simp
  have 2: "os_Stat S (fs \<sigma>) p = Inr isDir \<longrightarrow> Split p = (dir, fname) \<longrightarrow>
      normalize S \<sigma> fname \<noteq> fname \<longrightarrow> \<not> dryrun C \<longrightarrow>
      os_Rename S (fs \<sigma>) p (Join (fixedDir \<sigma> dir) (normalize S \<sigma> fname)) = Inl e \<longrightarrow>
      process S C (Suc n) \<sigma> p =
        Some (Inl e,
              \<sigma>\<lparr>fileCount := fileCount \<sigma> + 1,
                out := out \<sigma> @ (if quiet C then []
                       else [printed C p (Join (fixedDir \<sigma> dir) (normalize S \<sigma> fname))]),
                renameCalls := renameCalls \<sigma>
                       @ [(p, Join (fixedDir \<sigma> dir) (normalize S \<sigma> fname))]\<rparr>)"
    by (auto simp: rename_entry_changed Let_def)
  have 3: "os_Stat S (fs \<sigma>) p = Inr True \<longrightarrow> recurse C \<longrightarrow>
      rename_entry S C \<sigma> p = (Inr (newName, actualName), \<sigma>r) \<longrightarrow>
      os_ReadDir S (fs \<sigma>r) actualName = Inl e \<longrightarrow>
      process S C (Suc n) \<sigma> p =
        Some (Inl e, \<sigma>r\<lparr>dirFixed := (dirFixed \<sigma>r)(Join p [] @ sep \<mapsto> Join newName [] @ sep)\<rparr>)"
    by (simp add: Let_def)
  have 4: "os_Stat S (fs \<sigma>) p = Inr True \<longrightarrow> recurse C \<longrightarrow>
      rename_entry S C \<sigma> p = (Inr (newName, actualName), \<sigma>r) \<longrightarrow>
      os_ReadDir S (fs \<sigma>r) actualName = Inr d \<longrightarrow>
      process S C (Suc n) \<sigma> p =
        process_entries S C n
          (\<sigma>r\<lparr>dirFixed := (dirFixed \<sigma>r)(Join p [] @ sep \<mapsto> Join newName [] @ sep)\<rparr>)
          actualName d"
    by (simp add: Let_def)
  have 5: "process_entries S C n \<sigma> a xs = Some (Inr (), \<tau>p) \<longrightarrow>
      process S C n \<tau>p (Join a f) = Some (Inl e, \<tau>) \<longrightarrow>
      process_entries S C n \<sigma> a (xs @ f # ys) = Some (Inl e, \<tau>)"
    using entries_stop by blast
  have 6: "process_names S C n \<sigma> xs = Some (Inr (), \<tau>p) \<longrightarrow>
      process S C n \<tau>p name = Some (Inl e, \<tau>) \<longrightarrow>
      process_names S C n \<sigma> (xs @ name # ys) = Some (Inl e, \<tau>)"
    using names_stop by blast
  have 9: "filepath_Glob S (fs \<sigma>) pattern = Inr l \<longrightarrow>
      process_names S C n \<sigma> l = Some (Inl e, \<tau>) \<longrightarrow>
      run_patterns S C n \<sigma> (pattern # args) = Some (Inl e, \<tau>)"
    by simp
  show ?thesis using 1 2 3 4 5 6 9 by blast
qed

text \<open>
  One case for each part, on the tree where renaming fails; the last line is a whole
  run that stops inside \<open>sub\<close> and never reaches its second argument.
\<close>

theorem first_error_ends_run_witness:
  "process sample_sys (flags True False False False) (Suc 0) (start clash ''NFC'') ''missing''
     = Some (Inl (PathError ''stat'' ''missing''), start clash ''NFC'') \<and>
   process sample_sys (flags True False False False) (Suc 0) (start clash ''NFC'') (''sub/'' @ e_acute_d)
     = Some (Inl (LinkError (''sub/'' @ e_acute_d) (''sub/'' @ e_acute_c)),
             (start clash ''NFC'')
               \<lparr>fileCount := 1, out := [''sub/'' @ e_acute_c @ newline],
                renameCalls := [(''sub/'' @ e_acute_d, ''sub/'' @ e_acute_c)]\<rparr>) \<and>
   process no_listing (flags True False False False) (Suc 0) (start clash ''NFC'') ''sub''
     = Some (Inl (PathError ''open'' ''sub''),
             (start clash ''NFC'')\<lparr>dirFixed := [''sub/'' \<mapsto> ''sub/'']\<rparr>) \<and>
   process sample_sys (flags True False False False) (Suc (Suc 0)) (start clash ''NFC'') ''sub''
     = process_entries sample_sys (flags True False False False) (Suc 0)
         ((start clash ''NFC'')\<lparr>dirFixed := [''sub/'' \<mapsto> ''sub/'']\<rparr>) ''sub''
         [''a'', e_acute_d, e_acute_c] \<and>
   process_entries sample_sys (flags True False False False) (Suc 0)
       ((start clash ''NFC'')\<lparr>dirFixed := [''sub/'' \<mapsto> ''sub/'']\<rparr>) ''sub''
       ([''a''] @ e_acute_d # [e_acute_c])
     = Some (Inl (LinkError (''sub/'' @ e_acute_d) (''sub/'' @ e_acute_c)),
             (start clash ''NFC'')
               \<lparr>fileCount := 1, dirFixed := [''sub/'' \<mapsto> ''sub/''],
                out := [''sub/'' @ e_acute_c @ newline],
                renameCalls := [(''sub/'' @ e_acute_d, ''sub/'' @ e_acute_c)]\<rparr>) \<and>
   process_names sample_sys (flags True False False False) (Suc 0) (start clash ''NFC'')
       ([] @ (''sub/'' @ e_acute_d) # [''sub/a''])
     = Some (Inl (LinkError (''sub/'' @ e_acute_d) (''sub/'' @ e_acute_c)),
             (start clash ''NFC'')
               \<lparr>fileCount := 1, out := [''sub/'' @ e_acute_c @ newline],
                renameCalls := [(''sub/'' @ e_acute_d, ''sub/'' @ e_acute_c)]\<rparr>) \<and>
   run_patterns sample_sys (flags True False False False) (Suc 0) (start clash ''NFC'')
       ((''sub/'' @ e_acute_d) # [''sub/a''])
     = Some (Inl (LinkError (''sub/'' @ e_acute_d) (''sub/'' @ e_acute_c)),
             (start clash ''NFC'')
               \<lparr>fileCount := 1, out := [''sub/'' @ e_acute_c @ newline],
                renameCalls := [(''sub/'' @ e_acute_d, ''sub/'' @ e_acute_c)]\<rparr>) \<and>
   outcome (run sample_sys (flags True False False False) (Suc (Suc 0)) (start clash ''nfc'')
              [''sub'', ''sub/a''])
     = Some (Inl (LinkError (''sub/'' @ e_acute_d) (''sub/'' @ e_acute_c)),
             [''sub/'' @ e_acute_c @ newline],
             [(''sub/'' @ e_acute_d, ''sub/'' @ e_acute_c)], 1, clash)"
proof -
  let ?C = "flags True False False False"
  let ?\<sigma> = "start clash ''NFC'' :: sample_fs state"
  let ?\<sigma>2 = "?\<sigma>\<lparr>dirFixed := [''sub/'' \<mapsto> ''sub/'']\<rparr>"
  let ?p = "''sub/'' @ e_acute_d"
  let ?q = "''sub/'' @ e_acute_c"
  let ?e = "LinkError ?p ?q"
  let ?\<tau> = "?\<sigma>\<lparr>fileCount := 1, out := [?q @ newline], renameCalls := [(?p, ?q)]\<rparr>"
  let ?\<tau>2 = "?\<sigma>\<lparr>fileCount := 1, dirFixed := [''sub/'' \<mapsto> ''sub/''],
                 out := [?q @ newline], renameCalls := [(?p, ?q)]\<rparr>"
  note t = first_error_ends_run[where C = ?C]
  have fs: "fs ?\<sigma> = clash" "fs ?\<sigma>2 = clash"
    by (simp_all add: start_def)
  have real: "\<not> dryrun ?C" "recurse ?C"
    by (simp_all add: flags_def)

  text \<open>The path does not exist.\<close>
  have st0: "os_Stat sample_sys (fs ?\<sigma>) ''missing'' = Inl (PathError ''stat'' ''missing'')"
    unfolding fs by code_simp
  have a: "process sample_sys ?C (Suc 0) ?\<sigma> ''missing''
             = Some (Inl (PathError ''stat'' ''missing''), ?\<sigma>)"
    using t[where S = sample_sys and \<sigma> = ?\<sigma> and p = "''missing''" and n = 0
              and e = "PathError ''stat'' ''missing''"] st0
    by blast

  text \<open>The rename is refused, with and without the entry for \<open>sub/\<close>.\<close>
  have st1: "os_Stat sample_sys clash ?p = Inr True"
    by code_simp
  have sp: "Split ?p = (''sub/'', e_acute_d)"
    by code_simp
  have nf: "normalize sample_sys ?\<sigma> e_acute_d \<noteq> e_acute_d"
    "normalize sample_sys ?\<sigma>2 e_acute_d \<noteq> e_acute_d"
    by (simp_all add: normalize_def start_def) code_simp+
  have fd: "fixedDir ?\<sigma> ''sub/'' = ''sub/''" "fixedDir ?\<sigma>2 ''sub/'' = ''sub/''"
    by (simp_all add: fixedDir_def start_def)
  have nn: "normalize sample_sys ?\<sigma> e_acute_d = e_acute_c"
    "normalize sample_sys ?\<sigma>2 e_acute_d = e_acute_c"
    by (simp_all add: normalize_def start_def) code_simp+
  have jn: "Join ''sub/'' e_acute_c = ?q"
    by code_simp
  have rn: "os_Rename sample_sys clash ?p ?q = Inl ?e"
    by code_simp
  have b: "process sample_sys ?C (Suc 0) ?\<sigma> ?p
             = Some (Inl ?e, ?\<tau>)"
    using t[where S = sample_sys and \<sigma> = ?\<sigma> and p = ?p and n = 0 and e = ?e
              and isDir = True and dir = "''sub/''" and fname = e_acute_d]
      st1 sp nf real fd nn jn rn fs
    by (simp add: start_def flags_def printed_def)
  have b2: "process sample_sys ?C (Suc 0) ?\<sigma>2 ?p
             = Some (Inl ?e, ?\<tau>2)"
    using t[where S = sample_sys and \<sigma> = ?\<sigma>2 and p = ?p and n = 0 and e = ?e
              and isDir = True and dir = "''sub/''" and fname = e_acute_d]
      st1 sp nf real fd nn jn rn fs
    by (simp add: start_def flags_def printed_def)

  text \<open>The directory \<open>sub\<close> itself keeps its name.\<close>
  have st2: "os_Stat sample_sys clash ''sub'' = Inr True" "os_Stat no_listing clash ''sub'' = Inr True"
    unfolding no_listing_def by code_simp+
  have leaf: "normalize sample_sys ?\<sigma> (snd (Split ''sub'')) = snd (Split ''sub'')"
    "normalize no_listing ?\<sigma> (snd (Split ''sub'')) = snd (Split ''sub'')"
    unfolding no_listing_def by (simp_all add: normalize_def start_def) code_simp+
  have js: "Join ''sub'' [] = ''sub''"
    by code_simp
  have re: "rename_entry sample_sys ?C ?\<sigma> ''sub'' = (Inr (''sub'', ''sub''), ?\<sigma>)"
    "rename_entry no_listing ?C ?\<sigma> ''sub'' = (Inr (''sub'', ''sub''), ?\<sigma>)"
    using rename_entry_unchanged[OF leaf(1)] rename_entry_unchanged[OF leaf(2)] js by simp_all
  have m: "dirFixed ?\<sigma> = Map.empty"
    by (simp add: start_def)
  have rd0: "os_ReadDir no_listing clash ''sub'' = Inl (PathError ''open'' ''sub'')"
    by (simp add: no_listing_def)
  have c: "process no_listing ?C (Suc 0) ?\<sigma> ''sub''
             = Some (Inl (PathError ''open'' ''sub''), ?\<sigma>2)"
    using t[where S = no_listing and \<sigma> = ?\<sigma> and p = "''sub''" and n = 0
              and e = "PathError ''open'' ''sub''" and newName = "''sub''"
              and actualName = "''sub''" and \<sigma>r = ?\<sigma>]
      st2 re real rd0 fs js m
    by (simp add: sep_def)
  have rd: "os_ReadDir sample_sys clash ''sub'' = Inr [''a'', e_acute_d, e_acute_c]"
    by code_simp
  have d: "process sample_sys ?C (Suc (Suc 0)) ?\<sigma> ''sub''
             = process_entries sample_sys ?C (Suc 0) ?\<sigma>2 ''sub'' [''a'', e_acute_d, e_acute_c]"
    using t[where S = sample_sys and \<sigma> = ?\<sigma> and p = "''sub''" and n = "Suc 0"
              and newName = "''sub''" and actualName = "''sub''" and \<sigma>r = ?\<sigma>
              and d = "[''a'', e_acute_d, e_acute_c]"]
      st2 re real rd fs js m
    by (simp add: sep_def)

  text \<open>Inside \<open>sub\<close>: the file \<open>a\<close> is left alone, the next entry fails, the last is not reached.\<close>
  have ja: "Join ''sub'' ''a'' = ''sub/a''" "Join ''sub'' e_acute_d = ?p"
    by code_simp+
  have sta: "os_Stat sample_sys clash ''sub/a'' = Inr False"
    by code_simp
  have la: "normalize sample_sys ?\<sigma>2 (snd (Split ''sub/a'')) = snd (Split ''sub/a'')"
    by (simp add: normalize_def start_def) code_simp
  have pa: "process_entries sample_sys ?C (Suc 0) ?\<sigma>2 ''sub'' [''a''] = Some (Inr (), ?\<sigma>2)"
    using process_unchanged[OF la, of ?C 0] sta ja fs by simp
  have e: "process_entries sample_sys ?C (Suc 0) ?\<sigma>2 ''sub'' ([''a''] @ e_acute_d # [e_acute_c])
             = Some (Inl ?e, ?\<tau>2)"
    using t[where S = sample_sys and \<sigma> = ?\<sigma>2 and n = "Suc 0" and a = "''sub''"
              and xs = "[''a'']" and \<tau>p = ?\<sigma>2 and f = e_acute_d and e = ?e
              and \<tau> = "?\<tau>2" and ys = "[e_acute_c]"]
      pa b2 ja
    by simp

  text \<open>The same at the top: the remaining names and patterns are not tried.\<close>
  have f: "process_names sample_sys ?C (Suc 0) ?\<sigma> ([] @ ?p # [''sub/a''])
             = Some (Inl ?e, ?\<tau>)"
    using t[where S = sample_sys and \<sigma> = ?\<sigma> and n = "Suc 0"
              and xs = "[]" and \<tau>p = ?\<sigma> and name = ?p and e = ?e
              and \<tau> = "?\<tau>" and ys = "[''sub/a'']"]
      b
    by simp
  have gl: "filepath_Glob sample_sys clash ?p = Inr [?p]"
    by code_simp
  have f1: "process_names sample_sys ?C (Suc 0) ?\<sigma> [?p]
             = Some (Inl ?e, ?\<tau>)"
    using b by simp
  have g: "run_patterns sample_sys ?C (Suc 0) ?\<sigma> (?p # [''sub/a''])
             = Some (Inl ?e, ?\<tau>)"
    using t[where S = sample_sys and \<sigma> = ?\<sigma> and n = "Suc 0" and pattern = ?p
              and l = "[?p]" and e = ?e and \<tau> = "?\<tau>"
              and args = "[''sub/a'']"]
      gl f1 fs
    by simp
  have h: "outcome (run sample_sys ?C (Suc (Suc 0)) (start clash ''nfc'') [''sub'', ''sub/a''])
     = Some (Inl ?e, [?q @ newline], [(?p, ?q)], 1, clash)"
    by code_simp
  show ?thesis
    using a b c d e f g h by simp
qed

text \<open>
  C7. In dry-run mode \<^verbatim>\<open>process\<close>, and the whole of \<^verbatim>\<open>run\<close>, never call
  \<^verbatim>\<open>os.Rename\<close>, whatever the leaf names are, and leave the filesystem as it was.
\<close>

theorem dry_run_leaves_filesystem:
  assumes "dryrun C"
  shows "(process S C n \<sigma> p = Some (r, \<sigma>') \<longrightarrow>
            fs \<sigma>' = fs \<sigma> \<and> renameCalls \<sigma>' = renameCalls \<sigma>) \<and>
         (run S C n \<sigma> args = Some (r, \<sigma>') \<longrightarrow>
            fs \<sigma>' = fs \<sigma> \<and> renameCalls \<sigma>' = renameCalls \<sigma>)"
proof -
  let ?R = "\<lambda>\<sigma> \<sigma>'::'a state. fs \<sigma>' = fs \<sigma> \<and> renameCalls \<sigma>' = renameCalls \<sigma>"
  have one: "\<forall>\<sigma> p r \<sigma>'. process S C n \<sigma> p = Some (r, \<sigma>') \<longrightarrow> ?R \<sigma> \<sigma>'"
    using process_dry[OF assms] by blast
  have pats: "run_patterns S C n \<sigma>0 args = Some (r, \<sigma>') \<Longrightarrow> ?R \<sigma>0 \<sigma>'" for \<sigma>0
    by (rule patterns_related[where R = ?R, OF _ _ one]) auto
  have "run S C n \<sigma> args = Some (r, \<sigma>') \<Longrightarrow> ?R \<sigma> \<sigma>'"
    unfolding run_def Let_def
    by (auto split: if_splits dest!: pats)
  then show ?thesis using one by blast
qed

text \<open>A dry run over the example tree: three entries counted, nothing renamed.\<close>

theorem dry_run_leaves_filesystem_witness:
  "dryrun (flags True False True False) \<and>
   (\<exists>r \<sigma>'. run sample_sys (flags True False True False) 3 (start tree ''nfc'') [e_acute_d]
              = Some (r, \<sigma>') \<and>
            fileCount \<sigma>' = 3 \<and> fs \<sigma>' = tree \<and> renameCalls \<sigma>' = [])"
proof -
  have d: "dryrun (flags True False True False)"
    by (simp add: flags_def)
  have "outcome (run sample_sys (flags True False True False) 3 (start tree ''nfc'') [e_acute_d])
          = Some (Inr (),
                  [e_acute_c @ newline, e_acute_c @ ''/'' @ e_acute_c @ newline,
                   e_acute_d @ ''/sub/'' @ e_acute_c @ newline],
                  [], 3, tree)"
    by code_simp
  then obtain \<sigma>' where
    r: "run sample_sys (flags True False True False) 3 (start tree ''nfc'') [e_acute_d]
          = Some (Inr (), \<sigma>')" and
    c: "fileCount \<sigma>' = 3"
    by (auto simp: outcome_def)
  have "fs \<sigma>' = fs (start tree ''nfc'') \<and> renameCalls \<sigma>' = renameCalls (start tree ''nfc'')"
    using dry_run_leaves_filesystem[OF d] r by blast
  then show ?thesis using d r c by (auto simp: start_def)
qed

text \<open>
  C9. The form selector is compared after \<^verbatim>\<open>strings.ToUpper\<close>. Every spelling of
  NFC, NFD, NFKC, NFKD, WIN and MAC in upper or lower case ASCII letters selects its
  form, WIN the form of NFC and MAC the form of NFD. A selector whose upper-case form is
  none of the six makes \<^verbatim>\<open>run\<close> return the configuration error at once: no path is
  processed, and only \<^verbatim>\<open>formName\<close> differs from the state before.
\<close>

theorem form_selector:
  "(map upper_byte f = ''NFC'' \<or> map upper_byte f = ''WIN'' \<longrightarrow>
      run S C n (\<sigma>\<lparr>formName := f\<rparr>) args =
        run_patterns S C n (\<sigma>\<lparr>formName := map upper_byte f, formCode := NFC\<rparr>) args) \<and>
   (map upper_byte f = ''NFD'' \<or> map upper_byte f = ''MAC'' \<longrightarrow>
      run S C n (\<sigma>\<lparr>formName := f\<rparr>) args =
        run_patterns S C n (\<sigma>\<lparr>formName := map upper_byte f, formCode := NFD\<rparr>) args) \<and>
   (map upper_byte f = ''NFKC'' \<longrightarrow>
      run S C n (\<sigma>\<lparr>formName := f\<rparr>) args =
        run_patterns S C n (\<sigma>\<lparr>formName := map upper_byte f, formCode := NFKC\<rparr>) args) \<and>
   (map upper_byte f = ''NFKD'' \<longrightarrow>
      run S C n (\<sigma>\<lparr>formName := f\<rparr>) args =
        run_patterns S C n (\<sigma>\<lparr>formName := map upper_byte f, formCode := NFKD\<rparr>) args) \<and>
   (strings_ToUpper S f \<notin> {''NFC'', ''WIN'', ''NFD'', ''MAC'', ''NFKC'', ''NFKD''} \<longrightarrow>
      run S C n (\<sigma>\<lparr>formName := f\<rparr>) args =
        Some (Inl InvalidNormalizationForm, \<sigma>\<lparr>formName := strings_ToUpper S f\<rparr>))"
proof (intro conjI impI)
  assume a: "map upper_byte f = ''NFC'' \<or> map upper_byte f = ''WIN''"
  then have "strings_ToUpper S f = map upper_byte f"
    by (intro ToUpper_names) auto
  with a show "run S C n (\<sigma>\<lparr>formName := f\<rparr>) args =
        run_patterns S C n (\<sigma>\<lparr>formName := map upper_byte f, formCode := NFC\<rparr>) args"
    by (auto simp: run_def Let_def)
next
  assume a: "map upper_byte f = ''NFD'' \<or> map upper_byte f = ''MAC''"
  then have "strings_ToUpper S f = map upper_byte f"
    by (intro ToUpper_names) auto
  with a show "run S C n (\<sigma>\<lparr>formName := f\<rparr>) args =
        run_patterns S C n (\<sigma>\<lparr>formName := map upper_byte f, formCode := NFD\<rparr>) args"
    by (auto simp: run_def Let_def)
next
  assume a: "map upper_byte f = ''NFKC''"
  then have "strings_ToUpper S f = map upper_byte f"
    by (intro ToUpper_names) auto
  with a show "run S C n (\<sigma>\<lparr>formName := f\<rparr>) args =
        run_patterns S C n (\<sigma>\<lparr>formName := map upper_byte f, formCode := NFKC\<rparr>) args"
    by (auto simp: run_def Let_def)
next
  assume a: "map upper_byte f = ''NFKD''"
  then have "strings_ToUpper S f = map upper_byte f"
    by (intro ToUpper_names) auto
  with a show "run S C n (\<sigma>\<lparr>formName := f\<rparr>) args =
        run_patterns S C n (\<sigma>\<lparr>formName := map upper_byte f, formCode := NFKD\<rparr>) args"
    by (auto simp: run_def Let_def)
next
  assume "strings_ToUpper S f \<notin> {''NFC'', ''WIN'', ''NFD'', ''MAC'', ''NFKC'', ''NFKD''}"
  then show "run S C n (\<sigma>\<lparr>formName := f\<rparr>) args =
        Some (Inl InvalidNormalizationForm, \<sigma>\<lparr>formName := strings_ToUpper S f\<rparr>)"
    by (simp add: run_def Let_def)
qed

text \<open>Mixed-case spellings, and a selector that is not a form.\<close>

theorem form_selector_witness:
  "map upper_byte ''win'' = ''WIN'' \<and>
   run sample_sys (flags True False True False) 3 ((start tree ''NFC'')\<lparr>formName := ''win''\<rparr>) [e_acute_d]
     = run_patterns sample_sys (flags True False True False) 3
         ((start tree ''NFC'')\<lparr>formName := ''WIN'', formCode := NFC\<rparr>) [e_acute_d] \<and>
   map upper_byte ''Mac'' = ''MAC'' \<and>
   run sample_sys (flags True False True False) 3 ((start tree ''NFC'')\<lparr>formName := ''Mac''\<rparr>) [e_acute_d]
     = run_patterns sample_sys (flags True False True False) 3
         ((start tree ''NFC'')\<lparr>formName := ''MAC'', formCode := NFD\<rparr>) [e_acute_d] \<and>
   map upper_byte ''nfKc'' = ''NFKC'' \<and>
   run sample_sys (flags True False True False) 3 ((start tree ''NFC'')\<lparr>formName := ''nfKc''\<rparr>) [e_acute_d]
     = run_patterns sample_sys (flags True False True False) 3
         ((start tree ''NFC'')\<lparr>formName := ''NFKC'', formCode := NFKC\<rparr>) [e_acute_d] \<and>
   map upper_byte ''nfkd'' = ''NFKD'' \<and>
   run sample_sys (flags True False True False) 3 ((start tree ''NFC'')\<lparr>formName := ''nfkd''\<rparr>) [e_acute_d]
     = run_patterns sample_sys (flags True False True False) 3
         ((start tree ''NFC'')\<lparr>formName := ''NFKD'', formCode := NFKD\<rparr>) [e_acute_d] \<and>
   strings_ToUpper sample_sys ''nfx'' = ''NFX'' \<and>
   run sample_sys (flags True False False False) 3 ((start tree ''NFC'')\<lparr>formName := ''nfx''\<rparr>) [e_acute_d]
     = Some (Inl InvalidNormalizationForm, (start tree ''NFC'')\<lparr>formName := ''NFX''\<rparr>)"
proof -
  have u: "map upper_byte ''win'' = ''WIN''" "map upper_byte ''Mac'' = ''MAC''"
    "map upper_byte ''nfKc'' = ''NFKC''" "map upper_byte ''nfkd'' = ''NFKD''"
    "strings_ToUpper sample_sys ''nfx'' = ''NFX''"
    by code_simp+
  note t = form_selector[of _ sample_sys _ 3 "start tree ''NFC''" "[e_acute_d]"]
  show ?thesis
    using u t[of "''win''" "flags True False True False"] t[of "''Mac''" "flags True False True False"]
      t[of "''nfKc''" "flags True False True False"] t[of "''nfkd''" "flags True False True False"]
      t[of "''nfx''" "flags True False False False"]
    by simp
qed

end
